theory Spec2Isabelle
  imports Main "HOL-Library.Word"
begin

unbundle bit_operations_syntax

section \<open>Wire constants (reader.go)\<close>

type_synonym byte = "8 word"

definition ECHO :: byte where "ECHO = 1"
definition SGA :: byte where "SGA = 3"
definition NL :: byte where "NL = 10"
definition CR :: byte where "CR = 13"
definition LINEMODE :: byte where "LINEMODE = 34"
definition SE :: byte where "SE = 240"
definition SB :: byte where "SB = 250"
definition WILL :: byte where "WILL = 251"
definition WONT :: byte where "WONT = 252"
definition DO :: byte where "DO = 253"
definition DONT :: byte where "DONT = 254"
definition IAC :: byte where "IAC = 255"

text \<open>
  Modelled from the spec: the declaration of the option constant \<open>NAWS\<close> is not among the
  source files (only its uses in \<open>Session.RequestWindowSize\<close> are). The spec names it as the
  RFC 1073 option, whose code is 31.
\<close>
definition NAWS :: byte where "NAWS = 31"

lemmas wire_defs = ECHO_def SGA_def NL_def CR_def LINEMODE_def SE_def SB_def WILL_def
  WONT_def DO_def DONT_def IAC_def NAWS_def

section \<open>Errors\<close>

text \<open>
  Every error value that the modelled code can return: the sentinel errors of Go's \<open>io\<close> and
  \<open>bufio\<close> packages, the errors that the repository creates itself, errors wrapped by
  \<open>fmt.Errorf("...: %w", err)\<close>, an arbitrary transport failure, and a run-time panic.
\<close>

datatype error =
    EOF
  | ErrUnexpectedEOF
  | ErrNoProgress
  | ErrShortWrite
  | ErrBufferFull
  | Corrupted
  | PartialIACWrite
  | InvalidNAWSTerminator
  | Wrapped string error
  | TransportError nat
  | Panic

section \<open>The transport and Go's buffered reader\<close>

text \<open>
  The transport under a reader is the sequence of results that its successive \<open>Read\<close> calls
  will deliver: each result is a block of bytes together with an optional error. When the
  sequence is used up the transport reports end-of-stream. A block longer than the room that
  the caller offers is delivered in pieces.
\<close>

type_synonym conn_read = "byte list \<times> error option"

definition conn_Read :: "nat \<Rightarrow> conn_read list \<Rightarrow> conn_read \<times> conn_read list" where
  "conn_Read room rs =
     (case rs of
        [] \<Rightarrow> (([], Some EOF), [])
      | (bs, e) # rest \<Rightarrow>
          if length bs \<le> room then ((bs, e), rest)
          else ((take room bs, None), (drop room bs, e) # rest))"

text \<open>
  \<open>bufio.Reader\<close>: \<open>buf\<close> holds the buffered bytes not yet consumed (the slice
  \<open>b.buf[b.r:b.w]\<close>), \<open>rd\<close> the transport, \<open>err\<close> the pending error \<open>b.err\<close>.
  \<open>bufio.NewReader\<close> allocates \<open>defaultBufSize\<close> bytes.
\<close>

record bufio_Reader =
  buf :: "byte list"
  rd :: "conn_read list"
  err :: "error option"

definition defaultBufSize :: nat where "defaultBufSize = 4096"
definition maxConsecutiveEmptyReads :: nat where "maxConsecutiveEmptyReads = 100"

definition NewReader :: "conn_read list \<Rightarrow> bufio_Reader" where
  "NewReader c = \<lparr>buf = [], rd = c, err = None\<rparr>"

definition Buffered :: "bufio_Reader \<Rightarrow> nat" where
  "Buffered b = length (buf b)"

definition readErr :: "bufio_Reader \<Rightarrow> error option \<times> bufio_Reader" where
  "readErr b = (err b, b\<lparr>err := None\<rparr>)"

text \<open>
  \<open>fill\<close> reads a new block into the buffer. It tries up to \<open>maxConsecutiveEmptyReads\<close>
  times while the transport returns no byte and no error, then gives up with
  \<open>ErrNoProgress\<close>.
\<close>

fun fill_loop :: "nat \<Rightarrow> bufio_Reader \<Rightarrow> bufio_Reader" where
  "fill_loop 0 b = b\<lparr>err := Some ErrNoProgress\<rparr>"
| "fill_loop (Suc i) b =
     (case conn_Read (defaultBufSize - length (buf b)) (rd b) of
        ((bs, e), rest) \<Rightarrow>
          let b' = b\<lparr>buf := buf b @ bs, rd := rest\<rparr>
          in if e \<noteq> None then b'\<lparr>err := e\<rparr>
             else if bs \<noteq> [] then b'
             else fill_loop i b')"

definition fill :: "bufio_Reader \<Rightarrow> bufio_Reader" where
  "fill b = fill_loop maxConsecutiveEmptyReads b"

lemma fill_loop_post: "buf (fill_loop i b) = [] \<Longrightarrow> err (fill_loop i b) \<noteq> None"
  by (induction i arbitrary: b) (auto split: prod.splits if_splits simp: Let_def)

lemma fill_post: "buf (fill b) = [] \<Longrightarrow> err (fill b) \<noteq> None"
  unfolding fill_def by (rule fill_loop_post)

text \<open>\<open>ReadByte\<close>: refill while the buffer is empty, fail with the pending error.\<close>

function ReadByte :: "bufio_Reader \<Rightarrow> (error + byte) \<times> bufio_Reader" where
  "ReadByte b =
     (case buf b of
        [] \<Rightarrow>
          (case err b of
             Some e \<Rightarrow> (Inl e, b\<lparr>err := None\<rparr>)
           | None \<Rightarrow> ReadByte (fill b))
      | c # cs \<Rightarrow> (Inr c, b\<lparr>buf := cs\<rparr>))"
  by pat_completeness auto
termination
proof (relation "measure (\<lambda>b. if buf b \<noteq> [] then 0 else if err b \<noteq> None then 1 else 2)")
  show "wf (measure (\<lambda>b. if buf b \<noteq> [] then 0 else if err b \<noteq> None then (1::nat) else 2))"
    by simp
next
  fix b :: bufio_Reader
  assume "buf b = []" "err b = None"
  then show "(fill b, b) \<in> measure (\<lambda>b. if buf b \<noteq> [] then 0 else if err b \<noteq> None then (1::nat) else 2)"
    using fill_post [of b] by auto
qed

declare ReadByte.simps [simp del]

text \<open>
  The number of bytes that a reader can still deliver: those in its buffer and those of the
  transport. Every loop below consumes some of them on each round.
\<close>

definition conn_bytes :: "conn_read list \<Rightarrow> nat" where
  "conn_bytes rs = sum_list (map (\<lambda>r. length (fst r)) rs)"

definition remaining :: "bufio_Reader \<Rightarrow> nat" where
  "remaining b = length (buf b) + conn_bytes (rd b)"

lemma conn_Read_bytes:
  "conn_Read room rs = ((bs, e), rest) \<Longrightarrow> length bs + conn_bytes rest = conn_bytes rs"
  by (auto simp: conn_Read_def conn_bytes_def split: list.splits prod.splits if_splits)

lemma conn_Read_room: "conn_Read room rs = ((bs, e), rest) \<Longrightarrow> length bs \<le> room"
  by (auto simp: conn_Read_def split: list.splits prod.splits if_splits)

lemma fill_loop_remaining: "remaining (fill_loop i b) = remaining b"
proof (induction i arbitrary: b)
  case 0
  show ?case by (simp add: remaining_def)
next
  case (Suc i)
  obtain bs e rest where r: "conn_Read (defaultBufSize - length (buf b)) (rd b) = ((bs, e), rest)"
    by (metis prod.exhaust)
  have "remaining (b\<lparr>buf := buf b @ bs, rd := rest\<rparr>) = remaining b"
    using conn_Read_bytes [OF r] by (simp add: remaining_def)
  then show ?case
    using r Suc.IH [of "b\<lparr>buf := buf b @ bs, rd := rest\<rparr>"]
    by (auto simp: Let_def remaining_def)
qed

lemma fill_remaining: "remaining (fill b) = remaining b"
  unfolding fill_def by (rule fill_loop_remaining)

lemma fill_loop_grows:
  "err b = None \<Longrightarrow> length (buf b) < defaultBufSize \<Longrightarrow>
   err (fill_loop i b) \<noteq> None \<or>
   (length (buf b) < length (buf (fill_loop i b)) \<and> length (buf (fill_loop i b)) \<le> defaultBufSize)"
proof (induction i arbitrary: b)
  case 0
  show ?case by simp
next
  case (Suc i)
  obtain bs e rest where r: "conn_Read (defaultBufSize - length (buf b)) (rd b) = ((bs, e), rest)"
    by (metis prod.exhaust)
  show ?case
  proof (cases "e = None \<and> bs = []")
    case True
    then show ?thesis
      using r Suc.IH [of "b\<lparr>buf := buf b @ bs, rd := rest\<rparr>"] Suc.prems by (simp add: Let_def)
  next
    case False
    then show ?thesis
      using r conn_Read_room [OF r] Suc.prems by (auto simp: Let_def)
  qed
qed

lemma ReadByte_remaining_le: "ReadByte b = (r, b') \<Longrightarrow> remaining b' \<le> remaining b"
proof (induction b arbitrary: r b' rule: ReadByte.induct)
  case (1 b)
  show ?case
  proof (cases "buf b")
    case Nil
    show ?thesis
    proof (cases "err b")
      case None
      then show ?thesis
        using Nil "1.prems" "1.IH" [OF Nil None, of r b'] fill_remaining [of b]
        by (simp add: ReadByte.simps [of b])
    next
      case (Some e)
      then show ?thesis using Nil "1.prems" by (auto simp: remaining_def ReadByte.simps [of b])
    qed
  next
    case (Cons c cs)
    then show ?thesis using "1.prems" by (auto simp: remaining_def ReadByte.simps [of b])
  qed
qed

lemma ReadByte_remaining_less: "ReadByte b = (Inr c, b') \<Longrightarrow> remaining b' < remaining b"
proof (induction b arbitrary: c b' rule: ReadByte.induct)
  case (1 b)
  show ?case
  proof (cases "buf b")
    case Nil
    show ?thesis
    proof (cases "err b")
      case None
      then show ?thesis
        using Nil "1.prems" "1.IH" [OF Nil None, of c b'] fill_remaining [of b]
        by (simp add: ReadByte.simps [of b])
    next
      case (Some e)
      then show ?thesis using Nil "1.prems" by (auto simp: ReadByte.simps [of b])
    qed
  next
    case (Cons x xs)
    then show ?thesis using "1.prems" by (auto simp: remaining_def ReadByte.simps [of b])
  qed
qed

text \<open>
  \<open>Peek n\<close>: refill until \<open>n\<close> bytes are buffered, the buffer is full or an error is pending;
  then return the first \<open>n\<close> buffered bytes, or fewer with an error.
\<close>

function Peek_fill :: "nat \<Rightarrow> bufio_Reader \<Rightarrow> bufio_Reader" where
  "Peek_fill n b =
     (if length (buf b) < n \<and> length (buf b) < defaultBufSize \<and> err b = None
      then Peek_fill n (fill b) else b)"
  by pat_completeness auto
termination
proof (relation "measure (\<lambda>(n, b). if err b \<noteq> None then 0 else Suc (defaultBufSize - length (buf b)))")
  show "wf (measure (\<lambda>(n, b). if err b \<noteq> None then 0 else Suc (defaultBufSize - length (buf b))))"
    by simp
next
  fix n :: nat and b :: bufio_Reader
  assume "length (buf b) < n \<and> length (buf b) < defaultBufSize \<and> err b = None"
  then show "((n, fill b), (n, b)) \<in>
      measure (\<lambda>(n, b). if err b \<noteq> None then 0 else Suc (defaultBufSize - length (buf b)))"
    using fill_loop_grows [of b maxConsecutiveEmptyReads] by (auto simp: fill_def)
qed

declare Peek_fill.simps [simp del]

definition Peek :: "nat \<Rightarrow> bufio_Reader \<Rightarrow> (byte list \<times> error option) \<times> bufio_Reader" where
  "Peek n b0 =
     (let b = Peek_fill n b0
      in if n > defaultBufSize then ((buf b, Some ErrBufferFull), b)
         else if length (buf b) < n then
           (case readErr b of
              (None, b') \<Rightarrow> ((buf b, Some ErrBufferFull), b')
            | (Some e, b') \<Rightarrow> ((buf b, Some e), b'))
         else ((take n (buf b), None), b))"

lemma Peek_fill_remaining: "remaining (Peek_fill n b) = remaining b"
proof (induction n b rule: Peek_fill.induct)
  case (1 n b)
  show ?case
  proof (cases "length (buf b) < n \<and> length (buf b) < defaultBufSize \<and> err b = None")
    case True
    then have "Peek_fill n b = Peek_fill n (fill b)"
      by (simp add: Peek_fill.simps [of n b])
    then show ?thesis using "1.IH" [OF True] fill_remaining [of b] by simp
  next
    case False
    then have "Peek_fill n b = b"
      by (subst Peek_fill.simps) (simp only: if_False)
    then show ?thesis by simp
  qed
qed

lemma Peek_remaining: "Peek n b = (r, b') \<Longrightarrow> remaining b' = remaining b"
  using Peek_fill_remaining [of n b]
  by (auto simp: Peek_def Let_def readErr_def remaining_def split: if_splits option.splits)

text \<open>
  \<open>Discard n\<close> skips the next \<open>n\<close> bytes, refilling when the buffer is empty; it
  returns the number of bytes skipped, with the pending error when they were fewer than
  \<open>n\<close>.
\<close>

function Discard_loop :: "nat \<Rightarrow> nat \<Rightarrow> bufio_Reader \<Rightarrow> (nat \<times> error option) \<times> bufio_Reader" where
  "Discard_loop n remain b0 =
     (let b = (if Buffered b0 = 0 then fill b0 else b0);
          skip = min (Buffered b) remain;
          b' = b\<lparr>buf := drop skip (buf b)\<rparr>;
          remain' = remain - skip
      in if remain' = 0 then ((n, None), b')
         else if err b' \<noteq> None then
           (case readErr b' of (e, b'') \<Rightarrow> ((n - remain', e), b''))
         else Discard_loop n remain' b')"
  by pat_completeness auto
termination
proof (relation "measure (\<lambda>(n, remain, b). remain)")
  show "wf (measure (\<lambda>(n, remain, b). remain))"
    by simp
next
  fix n remain :: nat and b0 b b' :: bufio_Reader and skip remain' :: nat
  assume b: "b = (if Buffered b0 = 0 then fill b0 else b0)"
    and skip: "skip = min (Buffered b) remain"
    and b': "b' = b\<lparr>buf := drop skip (buf b)\<rparr>"
    and remain': "remain' = remain - skip"
    and more: "remain' \<noteq> 0" "\<not> err b' \<noteq> None"
  have "err b = None" using more b' by simp
  then have "buf b \<noteq> []"
    using b fill_post [of b0] by (auto simp: Buffered_def split: if_splits)
  then have "0 < skip" using skip more remain' by (simp add: Buffered_def)
  then show "((n, remain', b'), (n, remain, b0)) \<in> measure (\<lambda>(n, remain, b). remain)"
    using remain' more by simp
qed

declare Discard_loop.simps [simp del]

definition Discard :: "nat \<Rightarrow> bufio_Reader \<Rightarrow> (nat \<times> error option) \<times> bufio_Reader" where
  "Discard n b = (if n = 0 then ((0, None), b) else Discard_loop n n b)"

lemma Discard_loop_remaining:
  "Discard_loop n remain b = (r, b') \<Longrightarrow> remaining b' \<le> remaining b"
proof (induction n remain b arbitrary: r b' rule: Discard_loop.induct)
  case (1 n remain b0)
  define b where "b = (if Buffered b0 = 0 then fill b0 else b0)"
  define skip where "skip = min (Buffered b) remain"
  define b1 where "b1 = b\<lparr>buf := drop skip (buf b)\<rparr>"
  define remain' where "remain' = remain - skip"
  have le: "remaining b1 \<le> remaining b0"
    using fill_remaining [of b0] by (auto simp: b1_def b_def remaining_def)
  show ?case
  proof (cases "remain' \<noteq> 0 \<and> err b1 = None")
    case True
    then have "Discard_loop n remain b0 = Discard_loop n remain' b1"
      by (subst Discard_loop.simps) (simp add: Let_def b_def skip_def b1_def remain'_def)
    then have "remaining b' \<le> remaining b1"
      using "1.IH" [OF b_def skip_def b1_def remain'_def, of r b'] True "1.prems" by simp
    then show ?thesis using le by simp
  next
    case False
    then have "remaining b' = remaining b1"
      using "1.prems"
      by (subst (asm) Discard_loop.simps)
         (auto simp: Let_def b_def skip_def b1_def remain'_def readErr_def remaining_def
               split: if_splits)
    then show ?thesis using le by simp
  qed
qed

lemma Discard_remaining: "Discard n b = (r, b') \<Longrightarrow> remaining b' \<le> remaining b"
  using Discard_loop_remaining [of n n b r b'] by (auto simp: Discard_def split: if_splits)

section \<open>The TELNET reader (reader.go)\<close>

text \<open>
  The \<open>reader\<close> struct holds the buffered reader; its state is the state of that
  \<open>bufio.Reader\<close>. \<open>newReader\<close> wraps a transport.
\<close>

definition newReader :: "conn_read list \<Rightarrow> bufio_Reader" where
  "newReader c = NewReader c"

text \<open>
  The inner loop of \<open>Read\<close> for a subnegotiation (case \<open>SB\<close>): read bytes until an
  \<open>IAC SE\<close> pair; an \<open>IAC IAC\<close> pair is skipped. The result is the error that ended the
  loop, if any.
\<close>

function skip_SB :: "bufio_Reader \<Rightarrow> error option \<times> bufio_Reader" where
  "skip_SB b =
     (case ReadByte b of
        (Inl e, b1) \<Rightarrow> (Some e, b1)
      | (Inr b2, b1) \<Rightarrow>
          if b2 = IAC then
            (case Peek 1 b1 of
               ((peeked, Some e), b3) \<Rightarrow> (Some e, b3)
             | ((peeked, None), b3) \<Rightarrow>
                 (case peeked of
                    [] \<Rightarrow> (Some Panic, b3)
                  | p # ps \<Rightarrow>
                      if p = IAC \<or> p = SE then
                        (case Discard 1 b3 of
                           ((d, Some e), b4) \<Rightarrow> (Some e, b4)
                         | ((d, None), b4) \<Rightarrow>
                             if p = SE then (None, b4) else skip_SB b4)
                      else skip_SB b3))
          else skip_SB b1)"
  by pat_completeness auto
termination
proof (relation "measure remaining")
  show "wf (measure remaining)" by simp
next
  fix b x b1 c x1 b3 x2 e peeked p ps x3 b4 x4 d
  assume "(x, b1) = ReadByte b" "x = Inr c" "c = IAC" "(x1, b3) = Peek 1 b1"
    "(x3, b4) = Discard 1 b3"
  then show "(b4, b) \<in> measure remaining"
    using ReadByte_remaining_less [of b c b1] Peek_remaining [of 1 b1 x1 b3]
      Discard_remaining [of 1 b3 x3 b4]
    by simp
next
  fix b x b1 c x1 b3
  assume "(x, b1) = ReadByte b" "x = Inr c" "c = IAC" "(x1, b3) = Peek 1 b1"
  then show "(b3, b) \<in> measure remaining"
    using ReadByte_remaining_less [of b c b1] Peek_remaining [of 1 b1 x1 b3]
    by simp
next
  fix b x b1 c
  assume "(x, b1) = ReadByte b" "x = Inr c"
  then show "(b1, b) \<in> measure remaining"
    using ReadByte_remaining_less [of b c b1] by simp
qed

declare skip_SB.simps [simp del]

lemma skip_SB_remaining: "skip_SB b = (r, b') \<Longrightarrow> remaining b' \<le> remaining b"
proof (induction b arbitrary: r b' rule: skip_SB.induct)
  case (1 b)
  obtain x b1 where rb: "ReadByte b = (x, b1)" by (metis prod.exhaust)
  have le1: "remaining b1 \<le> remaining b" by (rule ReadByte_remaining_le [OF rb])
  show ?case
  proof (cases x)
    case (Inl e)
    then show ?thesis using "1.prems" rb le1 by (simp add: skip_SB.simps [of b])
  next
    case (Inr c)
    show ?thesis
    proof (cases "c = IAC")
      case False
      then have "skip_SB b1 = (r, b')"
        using "1.prems" rb Inr by (simp add: skip_SB.simps [of b])
      then show ?thesis
        using "1.IH"(3) [OF rb [symmetric] Inr False] le1 by fastforce
    next
      case True
      obtain peeked pe b3 where pk: "Peek 1 b1 = ((peeked, pe), b3)" by (metis prod.exhaust)
      have le3: "remaining b3 \<le> remaining b"
        using Peek_remaining [OF pk] le1 by simp
      show ?thesis
      proof (cases "pe = None \<and> peeked \<noteq> []")
        case False
        then have "b' = b3"
          using "1.prems" rb Inr True pk
          by (auto simp: skip_SB.simps [of b] split: option.splits list.splits)
        then show ?thesis using le3 by simp
      next
        case ok: True
        then obtain p ps where pp: "peeked = p # ps" by (cases peeked) auto
        have pe: "pe = None" using ok by simp
        show ?thesis
        proof (cases "p = IAC \<or> p = SE")
          case False
          then have "skip_SB b3 = (r, b')"
            using "1.prems" rb Inr True pk pp pe by (simp add: skip_SB.simps [of b])
          then show ?thesis
            using "1.IH"(2) [OF rb [symmetric] Inr True pk [symmetric] refl pe pp False] le3
            by fastforce
        next
          case marker: True
          obtain d de b4 where dc: "Discard 1 b3 = ((d, de), b4)" by (metis prod.exhaust)
          have le4: "remaining b4 \<le> remaining b"
            using Discard_remaining [OF dc] le3 by simp
          show ?thesis
          proof (cases "de = None \<and> p \<noteq> SE")
            case False
            then have "b' = b4"
              using "1.prems" rb Inr True pk pp pe marker dc
              by (auto simp: skip_SB.simps [of b] split: option.splits)
            then show ?thesis using le4 by simp
          next
            case again: True
            then have "skip_SB b4 = (r, b')"
              using "1.prems" rb Inr True pk pp pe marker dc
              by (simp add: skip_SB.simps [of b])
            then show ?thesis
              using "1.IH"(1) [OF rb [symmetric] Inr True pk [symmetric] refl pe pp marker
                  dc [symmetric] refl] again le4
              by fastforce
          qed
        qed
      qed
    qed
  qed
qed

text \<open>
  \<open>Read\<close>. The destination slice \<open>data\<close> is represented by its length \<open>k\<close>; \<open>out\<close> is the
  list of bytes stored into it so far, so that \<open>n = length out\<close>. The result is
  \<open>((out, err), reader state)\<close>.
\<close>

function Read_loop ::
  "nat \<Rightarrow> byte list \<Rightarrow> bufio_Reader \<Rightarrow> (byte list \<times> error option) \<times> bufio_Reader" where
  "Read_loop k out b =
     (if k = 0 then ((out, None), b)
      else if length out > 0 \<and> Buffered b < 1 then ((out, None), b)
      else
        (case ReadByte b of
           (Inl e, b1) \<Rightarrow> ((out, Some e), b1)
         | (Inr c, b1) \<Rightarrow>
             if c = IAC then
               (case Peek 1 b1 of
                  ((peeked, Some e), b2) \<Rightarrow> ((out, Some e), b2)
                | ((peeked, None), b2) \<Rightarrow>
                    (case peeked of
                       [] \<Rightarrow> ((out, Some Panic), b2)
                     | p # ps \<Rightarrow>
                         if p = WILL \<or> p = WONT \<or> p = DO \<or> p = DONT then
                           (case Discard 2 b2 of
                              ((d, Some e), b3) \<Rightarrow> ((out, Some e), b3)
                            | ((d, None), b3) \<Rightarrow> Read_loop k out b3)
                         else if p = IAC then
                           (case Discard 1 b2 of
                              ((d, Some e), b3) \<Rightarrow> ((out @ [IAC], Some e), b3)
                            | ((d, None), b3) \<Rightarrow> Read_loop (k - 1) (out @ [IAC]) b3)
                         else if p = SB then
                           (case skip_SB b2 of
                              (Some e, b3) \<Rightarrow> ((out, Some e), b3)
                            | (None, b3) \<Rightarrow> Read_loop k out b3)
                         else if p = SE then
                           (case Discard 1 b2 of
                              ((d, Some e), b3) \<Rightarrow> ((out, Some e), b3)
                            | ((d, None), b3) \<Rightarrow> Read_loop k out b3)
                         else ((out, Some Corrupted), b2)))
             else Read_loop (k - 1) (out @ [c]) b1))"
  by pat_completeness auto
termination
proof (relation "measure (\<lambda>(k, out, b). remaining b)")
  show "wf (measure (\<lambda>(k, out, b). remaining b))" by simp
next
  fix k out b x b1 c x1 b2 x2 b3
  assume "(x, b1) = ReadByte b" "x = Inr c" "(x1, b2) = Peek 1 b1" "(x2, b3) = Discard 2 b2"
  then show "((k, out, b3), (k, out, b)) \<in> measure (\<lambda>(k, out, b). remaining b)"
    using ReadByte_remaining_less [of b c b1] Peek_remaining [of 1 b1 x1 b2]
      Discard_remaining [of 2 b2 x2 b3]
    by simp
next
  fix k out b x b1 c x1 b2 x2 b3
  assume "(x, b1) = ReadByte b" "x = Inr c" "(x1, b2) = Peek 1 b1" "(x2, b3) = Discard 1 b2"
  then show "((k - 1, out @ [IAC], b3), (k, out, b)) \<in> measure (\<lambda>(k, out, b). remaining b)"
    using ReadByte_remaining_less [of b c b1] Peek_remaining [of 1 b1 x1 b2]
      Discard_remaining [of 1 b2 x2 b3]
    by simp
next
  fix k out b x b1 c x1 b2 x2 b3
  assume "(x, b1) = ReadByte b" "x = Inr c" "(x1, b2) = Peek 1 b1" "(x2, b3) = skip_SB b2"
  then show "((k, out, b3), (k, out, b)) \<in> measure (\<lambda>(k, out, b). remaining b)"
    using ReadByte_remaining_less [of b c b1] Peek_remaining [of 1 b1 x1 b2]
      skip_SB_remaining [of b2 x2 b3]
    by simp
next
  fix k out b x b1 c x1 b2 x2 b3
  assume "(x, b1) = ReadByte b" "x = Inr c" "(x1, b2) = Peek 1 b1" "(x2, b3) = Discard 1 b2"
  then show "((k, out, b3), (k, out, b)) \<in> measure (\<lambda>(k, out, b). remaining b)"
    using ReadByte_remaining_less [of b c b1] Peek_remaining [of 1 b1 x1 b2]
      Discard_remaining [of 1 b2 x2 b3]
    by simp
next
  fix k out b x b1 c
  assume "(x, b1) = ReadByte b" "x = Inr c"
  then show "((k - 1, out @ [c], b1), (k, out, b)) \<in> measure (\<lambda>(k, out, b). remaining b)"
    using ReadByte_remaining_less [of b c b1] by simp
qed

declare Read_loop.simps [simp del]

definition reader_Read :: "nat \<Rightarrow> bufio_Reader \<Rightarrow> (byte list \<times> error option) \<times> bufio_Reader" where
  "reader_Read k b = Read_loop k [] b"

section \<open>Writers and the resilient write (io.go)\<close>

text \<open>
  An \<open>io.Writer\<close> is a state together with its \<open>Write\<close> method: given the state and the
  bytes offered, the method returns the count \<open>n\<close> it reports, an optional error, and the
  new state.
\<close>

type_synonym 'w io_Writer = "'w \<Rightarrow> byte list \<Rightarrow> (int \<times> error option) \<times> 'w"

text \<open>\<open>errors.Is(err, target)\<close>: the error itself or an error it wraps.\<close>

fun errors_Is :: "error \<Rightarrow> error \<Rightarrow> bool" where
  "errors_Is (Wrapped msg e) target = (Wrapped msg e = target \<or> errors_Is e target)"
| "errors_Is e target = (e = target)"

text \<open>
  \<open>LongWrite\<close>. The loop runs while bytes are pending and returns only on an error that is
  not \<open>io.ErrShortWrite\<close>; nothing else bounds it, so its result is optional: \<open>None\<close> is
  a call that never returns. The slice expression \<open>p[n:]\<close> panics when the count is
  negative or exceeds the length of \<open>p\<close>.
\<close>

partial_function (option) LongWrite_loop ::
  "'w io_Writer \<Rightarrow> int \<Rightarrow> byte list \<Rightarrow> 'w \<Rightarrow> ((int \<times> error option) \<times> 'w) option" where
  "LongWrite_loop wr numWritten p w =
     (if length p > 0 then
        (case wr w p of
           ((n, e), w') \<Rightarrow>
             (case e of
                Some e' \<Rightarrow>
                  if \<not> errors_Is e' ErrShortWrite then Some ((numWritten + n, Some e'), w')
                  else if n < 0 \<or> int (length p) < n then Some ((numWritten + n, Some Panic), w')
                  else LongWrite_loop wr (numWritten + n) (drop (nat n) p) w'
              | None \<Rightarrow>
                  if n < 0 \<or> int (length p) < n then Some ((numWritten + n, Some Panic), w')
                  else LongWrite_loop wr (numWritten + n) (drop (nat n) p) w'))
      else Some ((numWritten, None), w))"

declare LongWrite_loop.simps [code]

definition LongWrite :: "'w io_Writer \<Rightarrow> byte list \<Rightarrow> 'w \<Rightarrow> ((int \<times> error option) \<times> 'w) option" where
  "LongWrite wr p w = LongWrite_loop wr 0 p w"

section \<open>The TELNET writer (writer.go)\<close>

definition commandSignature :: "byte list" where
  "commandSignature = [IAC, IAC, IAC, IAC]"

definition EscapeIAC :: "byte list" where
  "EscapeIAC = [IAC, IAC]"

text \<open>
  The body of the \<open>for _, value := range data\<close> loop of \<open>Write\<close> and the code after it.
  \<open>buffer\<close> is the \<open>bytes.Buffer\<close> of plain bytes not yet written, \<open>n\<close> the count so far.
\<close>

fun Write_loop ::
  "'w io_Writer \<Rightarrow> byte list \<Rightarrow> byte list \<Rightarrow> int \<Rightarrow> 'w \<Rightarrow> ((int \<times> error option) \<times> 'w) option" where
  "Write_loop wr [] buffer n w =
     (if length buffer > 0 then
        Option.bind (LongWrite wr buffer w) (\<lambda>((numWritten, e), w').
          case e of
            Some e' \<Rightarrow> Some ((n + numWritten, Some e'), w')
          | None \<Rightarrow> Some ((n + numWritten, None), w'))
      else Some ((n, None), w))"
| "Write_loop wr (v # data) buffer n w =
     (if v \<noteq> IAC then Write_loop wr data (buffer @ [v]) n w
      else
        Option.bind
          (if length buffer > 0 then
             Option.bind (LongWrite wr buffer w) (\<lambda>((numWritten, e), w').
               Some ((n + numWritten, e), w'))
           else Some ((n, None), w))
          (\<lambda>((n1, e1), w1).
             case e1 of
               Some e' \<Rightarrow> Some ((n1, Some e'), w1)
             | None \<Rightarrow>
                 Option.bind (LongWrite wr EscapeIAC w1) (\<lambda>((numWritten, e), w2).
                   case e of
                     Some e' \<Rightarrow> Some ((n1, Some e'), w2)
                   | None \<Rightarrow>
                       if numWritten \<noteq> int (length EscapeIAC)
                       then Some ((n1, Some PartialIACWrite), w2)
                       else Write_loop wr data [] (n1 + 1) w2)))"

definition writer_Write :: "'w io_Writer \<Rightarrow> byte list \<Rightarrow> 'w \<Rightarrow> ((int \<times> error option) \<times> 'w) option" where
  "writer_Write wr data w =
     (if length data > 5 \<and> take 4 data = commandSignature
      then LongWrite wr (drop 4 data) w
      else Write_loop wr data [] 0 w)"

definition WriteLine :: "'w io_Writer \<Rightarrow> byte list list \<Rightarrow> 'w \<Rightarrow> (error option \<times> 'w) option" where
  "WriteLine wr text w =
     Option.bind (writer_Write wr (concat text) w) (\<lambda>((n, e), w'). Some (e, w'))"

definition WriteCommand ::
  "'w io_Writer \<Rightarrow> byte \<Rightarrow> byte \<Rightarrow> byte \<Rightarrow> 'w \<Rightarrow> ((int \<times> error option) \<times> 'w) option" where
  "WriteCommand wr command option action w =
     writer_Write wr (commandSignature @ [command, option, action]) w"

section \<open>Reading blocks: \<open>bufio.Reader.Read\<close> and \<open>io.ReadFull\<close>\<close>

text \<open>
  \<open>bufio.Reader.Read\<close> into a slice of length \<open>k\<close>: at most one read of the transport,
  and only when the buffer is empty.
\<close>

definition bufio_Read :: "nat \<Rightarrow> bufio_Reader \<Rightarrow> (byte list \<times> error option) \<times> bufio_Reader" where
  "bufio_Read k b =
     (if k = 0 then
        (if Buffered b > 0 then (([], None), b)
         else (case readErr b of (e, b') \<Rightarrow> (([], e), b')))
      else if buf b = [] then
        (if err b \<noteq> None then (case readErr b of (e, b') \<Rightarrow> (([], e), b'))
         else if k \<ge> defaultBufSize then
           (case conn_Read k (rd b) of
              ((bs, e), rest) \<Rightarrow>
                (case readErr (b\<lparr>rd := rest, err := e\<rparr>) of (e', b') \<Rightarrow> ((bs, e'), b')))
         else
           (case conn_Read defaultBufSize (rd b) of
              ((bs, e), rest) \<Rightarrow>
                if bs = [] then
                  (case readErr (b\<lparr>rd := rest, err := e\<rparr>) of (e', b') \<Rightarrow> (([], e'), b'))
                else ((take k bs, None), b\<lparr>buf := drop k bs, rd := rest, err := e\<rparr>)))
      else ((take k (buf b), None), b\<lparr>buf := drop k (buf b)\<rparr>))"

lemma conn_Read_length:
  "conn_Read room rs = ((bs, e), rest) \<Longrightarrow> 0 < room \<Longrightarrow>
   length rest \<le> length rs \<and> (bs = [] \<and> e = None \<longrightarrow> length rest < length rs)"
  by (auto simp: conn_Read_def split: list.splits prod.splits if_splits)

lemma bufio_Read_progress:
  assumes "bufio_Read k b = ((bs, None), b')" and "0 < k"
  shows "length bs \<le> k \<and> length (rd b') \<le> length (rd b) \<and>
         (bs = [] \<longrightarrow> length (rd b') < length (rd b))"
proof (cases "buf b = []")
  case False
  then show ?thesis using assms by (auto simp: bufio_Read_def)
next
  case True
  show ?thesis
  proof (cases "err b")
    case (Some e)
    then show ?thesis using assms True by (auto simp: bufio_Read_def readErr_def)
  next
    case None
    show ?thesis
    proof (cases "k \<ge> defaultBufSize")
      case True
      obtain cs e rest where r: "conn_Read k (rd b) = ((cs, e), rest)"
        by (metis prod.exhaust)
      then show ?thesis
        using assms \<open>buf b = []\<close> None True conn_Read_length [OF r \<open>0 < k\<close>]
          conn_Read_room [OF r]
        by (auto simp: bufio_Read_def readErr_def)
    next
      case False
      obtain cs e rest where r: "conn_Read defaultBufSize (rd b) = ((cs, e), rest)"
        by (metis prod.exhaust)
      then show ?thesis
        using assms \<open>buf b = []\<close> None False conn_Read_length [OF r]
        by (auto simp: bufio_Read_def readErr_def defaultBufSize_def split: if_splits)
    qed
  qed
qed

text \<open>
  \<open>io.ReadFull(r, buf)\<close> is \<open>io.ReadAtLeast(r, buf, len(buf))\<close>: read until \<open>k\<close> bytes
  have arrived or a read fails.
\<close>

function ReadAtLeast_loop ::
  "nat \<Rightarrow> byte list \<Rightarrow> bufio_Reader \<Rightarrow> (byte list \<times> error option) \<times> bufio_Reader" where
  "ReadAtLeast_loop k acc b =
     (if length acc < k then
        (case bufio_Read (k - length acc) b of
           ((bs, Some e), b') \<Rightarrow> ((acc @ bs, Some e), b')
         | ((bs, None), b') \<Rightarrow> ReadAtLeast_loop k (acc @ bs) b')
      else ((acc, None), b))"
  by pat_completeness auto
termination
proof (relation "measure (\<lambda>(k, acc, b). (k - length acc) + length (rd b))")
  show "wf (measure (\<lambda>(k, acc, b). (k - length acc) + length (rd b)))" by simp
next
  fix k :: nat and acc bs :: "byte list" and b b' :: bufio_Reader
    and x :: "byte list \<times> error option" and e :: "error option"
  assume "length acc < k" "(x, b') = bufio_Read (k - length acc) b" "(bs, e) = x" "e = None"
  then have "bufio_Read (k - length acc) b = ((bs, None), b')" by simp
  from bufio_Read_progress [OF this] \<open>length acc < k\<close>
  have "length bs \<le> k - length acc" "length (rd b') \<le> length (rd b)"
    "0 < length bs \<or> length (rd b') < length (rd b)"
    by auto
  with \<open>length acc < k\<close>
  have "(k - length (acc @ bs)) + length (rd b') < (k - length acc) + length (rd b)"
    unfolding length_append by linarith
  then show "((k, acc @ bs, b'), (k, acc, b)) \<in> measure (\<lambda>(k, acc, b). (k - length acc) + length (rd b))"
    by simp
qed

declare ReadAtLeast_loop.simps [simp del]

definition ReadFull :: "nat \<Rightarrow> bufio_Reader \<Rightarrow> (byte list \<times> error option) \<times> bufio_Reader" where
  "ReadFull k b =
     (case ReadAtLeast_loop k [] b of
        ((bs, e), b') \<Rightarrow>
          if length bs \<ge> k then ((bs, None), b')
          else if length bs > 0 \<and> e = Some EOF then ((bs, Some ErrUnexpectedEOF), b')
          else ((bs, e), b'))"

section \<open>Observing the wire\<close>

text \<open>
  \<open>recording wr\<close> is the writer \<open>wr\<close> with a log of the bytes it has accepted: a call that
  reports \<open>n\<close> has taken the first \<open>n\<close> bytes offered. The log is the wire.
\<close>

definition recording :: "'w io_Writer \<Rightarrow> ('w \<times> byte list) io_Writer" where
  "recording wr = (\<lambda>(w, log) p.
     case wr w p of ((n, e), w') \<Rightarrow> ((n, e), (w', log @ take (nat n) p)))"

text \<open>\<open>bytes.Buffer.Write\<close> accepts everything; its state is its content.\<close>

definition buffer_Write :: "(byte list) io_Writer" where
  "buffer_Write w p = ((int (length p), None), w @ p)"

text \<open>A writer that accepts one byte per call and reports a short write when more was offered.\<close>

definition short_Write :: "(byte list) io_Writer" where
  "short_Write w p =
     (if length p \<le> 1 then ((int (length p), None), w @ p)
      else ((1, Some ErrShortWrite), w @ take 1 p))"



definition reliable :: "'w io_Writer \<Rightarrow> bool" where
  "reliable wr \<longleftrightarrow>
     (\<forall>w p. p \<noteq> [] \<longrightarrow>
        (case wr w p of
           ((n, e), w') \<Rightarrow>
             0 < n \<and> n \<le> int (length p) \<and>
             (case e of None \<Rightarrow> True | Some e' \<Rightarrow> errors_Is e' ErrShortWrite)))"

text \<open>The escaped encoding, in the words of the spec: every byte 255 doubled, all others unchanged.\<close>

definition escaped :: "byte list \<Rightarrow> byte list" where
  "escaped data = concat (map (\<lambda>c. if c = IAC then [IAC, IAC] else [c]) data)"

lemma reliable_buffer_Write: "reliable buffer_Write"
  by (simp add: reliable_def buffer_Write_def)

lemma reliable_short_Write: "reliable short_Write"
  by (auto simp: reliable_def short_Write_def Suc_le_eq)






lemma reliableD:
  assumes "reliable wr" and "p \<noteq> []" and "wr w p = ((n, e), w1)"
  shows "0 < n" and "n \<le> int (length p)"
    and "e = None \<or> (\<exists>e'. e = Some e' \<and> errors_Is e' ErrShortWrite)"
proof -
  have "case wr w p of ((n, e), w') \<Rightarrow>
      0 < n \<and> n \<le> int (length p) \<and>
      (case e of None \<Rightarrow> True | Some e' \<Rightarrow> errors_Is e' ErrShortWrite)"
    by (rule assms(1) [unfolded reliable_def, rule_format, of p w, OF assms(2)])
  then have *: "0 < n \<and> n \<le> int (length p) \<and>
      (case e of None \<Rightarrow> True | Some e' \<Rightarrow> errors_Is e' ErrShortWrite)"
    by (simp add: assms(3))
  show "0 < n" "n \<le> int (length p)" using * by simp_all
  show "e = None \<or> (\<exists>e'. e = Some e' \<and> errors_Is e' ErrShortWrite)"
    using * by (cases e) simp_all
qed

lemma LongWrite_loop_reliable:
  assumes "reliable wr"
  shows "\<exists>w'. LongWrite_loop (recording wr) m p (w, log) =
           Some ((m + int (length p), None), (w', log @ p))"
proof (induction "length p" arbitrary: p m w log rule: less_induct)
  case less
  show ?case
  proof (cases "p = []")
    case True
    then show ?thesis by (subst LongWrite_loop.simps) simp
  next
    case False
    obtain n e w1 where wr: "wr w p = ((n, e), w1)" by (metis prod.exhaust)
    note r = reliableD [OF assms False wr]
    have shorter: "length (drop (nat n) p) < length p" using r(1) False by simp
    from less [OF shorter, of "m + n" w1 "log @ take (nat n) p"]
    obtain w' where rec: "LongWrite_loop (recording wr) (m + n) (drop (nat n) p)
        (w1, log @ take (nat n) p) = Some ((m + n + int (length (drop (nat n) p)), None),
          (w', (log @ take (nat n) p) @ drop (nat n) p))"
      by blast
    have len: "m + n + int (length (drop (nat n) p)) = m + int (length p)"
      using r(1,2) by simp
    have rw: "recording wr (w, log) p = ((n, e), (w1, log @ take (nat n) p))"
      by (simp add: recording_def wr)
    have "LongWrite_loop (recording wr) m p (w, log) =
        LongWrite_loop (recording wr) (m + n) (drop (nat n) p) (w1, log @ take (nat n) p)"
    proof (cases e)
      case None
      then show ?thesis
        using False r(1,2) by (subst LongWrite_loop.simps) (simp add: rw)
    next
      case (Some e')
      then have "errors_Is e' ErrShortWrite" using r(3) by simp
      then show ?thesis
        using False r(1,2) Some by (subst LongWrite_loop.simps) (simp add: rw)
    qed
    then show ?thesis using rec len by simp
  qed
qed

lemma LongWrite_reliable:
  "reliable wr \<Longrightarrow>
   \<exists>w'. LongWrite (recording wr) p (w, log) = Some ((int (length p), None), (w', log @ p))"
  using LongWrite_loop_reliable [of wr 0 p w log] by (simp add: LongWrite_def)




section \<open>Properties of the writer\<close>

text \<open>
  C3. For every triple of bytes, \<open>WriteCommand\<close> on the TELNET writer puts exactly these
  three bytes on the wire, unescaped whatever their values, and returns 3. The underlying
  writer may be any reliable one, short writes included.
\<close>

theorem WriteCommand_raw:
  assumes "reliable wr"
  shows "\<exists>w'. WriteCommand (recording wr) command option action (w, log) =
           Some ((3, None), (w', log @ [command, option, action]))"
proof -
  let ?data = "commandSignature @ [command, option, action]"
  have sig: "length ?data > 5 \<and> take 4 ?data = commandSignature"
    by (simp add: commandSignature_def)
  have rest: "drop 4 ?data = [command, option, action]"
    by (simp add: commandSignature_def)
  have "WriteCommand (recording wr) command option action (w, log) =
      LongWrite (recording wr) [command, option, action] (w, log)"
    unfolding WriteCommand_def writer_Write_def using sig rest by simp
  then show ?thesis
    using LongWrite_reliable [OF assms, of "[command, option, action]" w log] by simp
qed

theorem WriteCommand_raw_witness:
  "reliable buffer_Write \<and>
   (\<exists>w'. WriteCommand (recording buffer_Write) IAC WILL ECHO ([], []) =
      Some ((3, None), (w', [255, 251, 1])))"
  using WriteCommand_raw [OF reliable_buffer_Write, of IAC WILL ECHO "[]" "[]"]
    reliable_buffer_Write
  by (simp add: IAC_def WILL_def ECHO_def)





section \<open>One round of the loop of \<open>Read\<close>\<close>

lemma Peek_buffered: "Peek 1 b = ((p # ps, None), b') \<Longrightarrow> buf b' \<noteq> []"
  by (auto simp: Peek_def Let_def readErr_def split: if_splits option.splits)

lemma Discard_buffered:
  assumes "buf b \<noteq> []"
  shows "\<exists>b'. Discard 1 b = ((1, None), b')"
proof -
  obtain c cs where "buf b = c # cs" using assms by (cases "buf b") auto
  then have "Discard_loop 1 1 b = ((1, None), b\<lparr>buf := cs\<rparr>)"
    by (subst Discard_loop.simps) (simp add: Let_def Buffered_def)
  then show ?thesis by (simp add: Discard_def)
qed

text \<open>
  A call of the loop either leaves at its head, or fails, or goes round again on a reader
  that has fewer bytes left.
\<close>

lemma Read_loop_step:
  assumes "Read_loop k out b = (r, b')"
  shows "((k = 0 \<or> (out \<noteq> [] \<and> buf b = [])) \<and> r = (out, None) \<and> b' = b) \<or>
         (\<exists>e. r = (out, Some e) \<and> remaining b' \<le> remaining b) \<or>
         (\<exists>k' out' b1. remaining b1 < remaining b \<and> 0 < k \<and>
            Read_loop k' out' b1 = (r, b') \<and>
            ((k' = k \<and> out' = out) \<or> (k' = k - 1 \<and> (\<exists>c. out' = out @ [c]))))"
proof (cases "k = 0 \<or> (out \<noteq> [] \<and> buf b = [])")
  case True
  have "Read_loop k out b = ((out, None), b)"
  proof (cases "k = 0")
    case True
    then show ?thesis by (subst Read_loop.simps) simp
  next
    case False
    then have "out \<noteq> []" "buf b = []" using True by simp_all
    then show ?thesis by (subst Read_loop.simps) (simp add: Buffered_def)
  qed
  then have "r = (out, None) \<and> b' = b"
    using assms by simp
  then show ?thesis using True by blast
next
  case go: False
  then have k: "0 < k" by simp
  obtain x b1 where rb: "ReadByte b = (x, b1)" by (metis prod.exhaust)
  have le1: "remaining b1 \<le> remaining b" by (rule ReadByte_remaining_le [OF rb])
  show ?thesis
  proof (cases x)
    case (Inl e)
    then have "r = (out, Some e) \<and> b' = b1"
      using go rb assms by (auto simp: Read_loop.simps [of k out b] Buffered_def)
    then show ?thesis using le1 by blast
  next
    case (Inr c)
    have lt1: "remaining b1 < remaining b"
      using ReadByte_remaining_less rb Inr by blast
    show ?thesis
    proof (cases "c = IAC")
      case False
      then have "Read_loop (k - 1) (out @ [c]) b1 = (r, b')"
        using go rb Inr assms by (auto simp: Read_loop.simps [of k out b] Buffered_def)
      then show ?thesis using lt1 k by blast
    next
      case True
      obtain peeked pe b2 where pk: "Peek 1 b1 = ((peeked, pe), b2)" by (metis prod.exhaust)
      have lt2: "remaining b2 < remaining b" using Peek_remaining [OF pk] lt1 by simp
      show ?thesis
      proof (cases "pe = None \<and> peeked \<noteq> []")
        case False
        then have "(\<exists>e. r = (out, Some e)) \<and> b' = b2"
          using go rb Inr True pk assms
          by (auto simp: Read_loop.simps [of k out b] Buffered_def
                   split: option.splits list.splits)
        then show ?thesis using lt2 by auto
      next
        case ok: True
        then obtain p ps where pp: "peeked = p # ps" by (cases peeked) auto
        have pe: "pe = None" using ok by simp
        note here = go rb Inr True pk pp pe
        obtain d1 e1 b3 where dc1: "Discard 1 b2 = ((d1, e1), b3)" by (metis prod.exhaust)
        obtain d2 e2 b4 where dc2: "Discard 2 b2 = ((d2, e2), b4)" by (metis prod.exhaust)
        obtain e5 b5 where sk: "skip_SB b2 = (e5, b5)" by (metis prod.exhaust)
        have lt3: "remaining b3 < remaining b" using Discard_remaining [OF dc1] lt2 by simp
        have lt4: "remaining b4 < remaining b" using Discard_remaining [OF dc2] lt2 by simp
        have lt5: "remaining b5 < remaining b" using skip_SB_remaining [OF sk] lt2 by simp
        show ?thesis
        proof (cases "p = WILL \<or> p = WONT \<or> p = DO \<or> p = DONT")
          case verb: True
          show ?thesis
          proof (cases e2)
            case None
            then have "Read_loop k out b4 = (r, b')"
              using here verb dc2 assms
              by (auto simp: Read_loop.simps [of k out b] Buffered_def)
            then show ?thesis using lt4 k by blast
          next
            case (Some e)
            then have "r = (out, Some e) \<and> b' = b4"
              using here verb dc2 assms
              by (auto simp: Read_loop.simps [of k out b] Buffered_def)
            then show ?thesis using lt4 by auto
          qed
        next
          case noverb: False
          show ?thesis
          proof (cases "p = IAC")
            case lit: True
            show ?thesis
            proof (cases e1)
              case None
              then have "Read_loop (k - 1) (out @ [IAC]) b3 = (r, b')"
                using here noverb lit dc1 assms
                by (auto simp: Read_loop.simps [of k out b] Buffered_def)
              then show ?thesis using lt3 k by blast
            next
              case (Some e)
              have "buf b2 \<noteq> []" using Peek_buffered pk pp pe by blast
              from Discard_buffered [OF this] have False using dc1 Some by auto
              then show ?thesis ..
            qed
          next
            case nolit: False
            show ?thesis
            proof (cases "p = SB")
              case sb: True
              show ?thesis
              proof (cases e5)
                case None
                then have "Read_loop k out b5 = (r, b')"
                  using here noverb nolit sb sk assms
                  by (auto simp: Read_loop.simps [of k out b] Buffered_def)
                then show ?thesis using lt5 k by blast
              next
                case (Some e)
                then have "r = (out, Some e) \<and> b' = b5"
                  using here noverb nolit sb sk assms
                  by (auto simp: Read_loop.simps [of k out b] Buffered_def)
                then show ?thesis using lt5 by auto
              qed
            next
              case nosb: False
              show ?thesis
              proof (cases "p = SE")
                case se: True
                show ?thesis
                proof (cases e1)
                  case None
                  then have "Read_loop k out b3 = (r, b')"
                    using here noverb nolit nosb se dc1 assms
                    by (auto simp: Read_loop.simps [of k out b] Buffered_def)
                  then show ?thesis using lt3 k by blast
                next
                  case (Some e)
                  then have "r = (out, Some e) \<and> b' = b3"
                    using here noverb nolit nosb se dc1 assms
                    by (auto simp: Read_loop.simps [of k out b] Buffered_def)
                  then show ?thesis using lt3 by auto
                qed
              next
                case nose: False
                then have "r = (out, Some Corrupted) \<and> b' = b2"
                  using here noverb nolit nosb assms
                  by (auto simp: Read_loop.simps [of k out b] Buffered_def)
                then show ?thesis using lt2 by auto
              qed
            qed
          qed
        qed
      qed
    qed
  qed
qed

lemma Read_loop_progress:
  "Read_loop k out b = ((out', e), b') \<Longrightarrow>
   remaining b' \<le> remaining b \<and> length out \<le> length out' \<and>
   (length out < length out' \<longrightarrow> remaining b' < remaining b) \<and>
   (e = None \<and> 0 < k \<and> out = [] \<longrightarrow> out' \<noteq> [])"
proof (induction "remaining b" arbitrary: k out b rule: less_induct)
  case less
  from Read_loop_step [OF less.prems]
  consider
    (exit) "k = 0 \<or> (out \<noteq> [] \<and> buf b = [])" "(out', e) = (out, None)" "b' = b"
  | (fail) e' where "(out', e) = (out, Some e')" "remaining b' \<le> remaining b"
  | (again) k' out1 b1 where "remaining b1 < remaining b" "0 < k"
      "Read_loop k' out1 b1 = ((out', e), b')"
      "(k' = k \<and> out1 = out) \<or> (k' = k - 1 \<and> (\<exists>c. out1 = out @ [c]))"
    by blast
  then show ?case
  proof cases
    case exit
    then show ?thesis by auto
  next
    case fail
    then show ?thesis by auto
  next
    case again
    note ih = less.hyps [OF again(1) again(3)]
    show ?thesis
    proof (cases "out1 = out")
      case True
      then have "k' = k" using again(4) by auto
      then show ?thesis using ih True again(1) by auto
    next
      case False
      then obtain c where "out1 = out @ [c]" using again(4) by auto
      then show ?thesis using ih again(1) by auto
    qed
  qed
qed

lemma reader_Read_progress:
  assumes "reader_Read k b = ((out, e), b')" and "0 < k" and "e = None \<or> out \<noteq> []"
  shows "remaining b' < remaining b"
  using Read_loop_progress [of k "[]" b out e b'] assms by (auto simp: reader_Read_def)

text \<open>
  A caller that makes the calls \<open>Read\<close> with destination slices of the lengths \<open>ks\<close>, one
  after the other, and stops at the first error. The result is all the bytes delivered and
  the error that ended the calls, if any.
\<close>

fun Read_calls ::
  "nat list \<Rightarrow> bufio_Reader \<Rightarrow> (byte list \<times> error option) \<times> bufio_Reader" where
  "Read_calls [] b = (([], None), b)"
| "Read_calls (k # ks) b =
     (case reader_Read k b of
        ((out, Some e), b') \<Rightarrow> ((out, Some e), b')
      | ((out, None), b') \<Rightarrow>
          (case Read_calls ks b' of ((rest, e), b'') \<Rightarrow> ((out @ rest, e), b'')))"

text \<open>
  \<open>ReadLine\<close> on the TELNET reader. \<open>line\<close> is the \<open>bytes.Buffer\<close>; the one-byte slice
  \<open>p\<close> is read only after a call that stored a byte in it. The loop returns the error of
  the failed call, or the bytes of the line up to and including the line feed.
\<close>

function ReadLine_loop :: "byte list \<Rightarrow> bufio_Reader \<Rightarrow> (error + byte list) \<times> bufio_Reader" where
  "ReadLine_loop line b =
     (case reader_Read 1 b of
        (([], None), b') \<Rightarrow> ReadLine_loop line b'
      | (([], Some e), b') \<Rightarrow> (Inl e, b')
      | ((c # cs, e), b') \<Rightarrow>
          if c = NL then (Inr (line @ [c]), b') else ReadLine_loop (line @ [c]) b')"
  by pat_completeness auto
termination
proof (relation "measure (\<lambda>(line, b). remaining b)")
  show "wf (measure (\<lambda>(line, b). remaining b))" by simp
next
  fix line :: "byte list" and b b' :: bufio_Reader and x :: "byte list \<times> error option"
    and out :: "byte list" and e :: "error option"
  assume "(x, b') = reader_Read 1 b" "(out, e) = x" "out = []" "e = None"
  then have "reader_Read 1 b = ((out, e), b')" by simp
  from reader_Read_progress [OF this] \<open>e = None\<close>
  show "((line, b'), (line, b)) \<in> measure (\<lambda>(line, b). remaining b)" by simp
next
  fix line :: "byte list" and b b' :: bufio_Reader and x :: "byte list \<times> error option"
    and out cs :: "byte list" and e :: "error option" and c :: byte
  assume "(x, b') = reader_Read 1 b" "(out, e) = x" "out = c # cs"
  then have "reader_Read 1 b = ((out, e), b')" by simp
  from reader_Read_progress [OF this] \<open>out = c # cs\<close>
  show "((line @ [c], b'), (line, b)) \<in> measure (\<lambda>(line, b). remaining b)" by simp
qed

declare ReadLine_loop.simps [simp del]

definition ReadLine :: "bufio_Reader \<Rightarrow> (byte list \<times> error option) \<times> bufio_Reader" where
  "ReadLine b =
     (case ReadLine_loop [] b of
        (Inl e, b') \<Rightarrow> (([], Some e), b')
      | (Inr lineBytes, b') \<Rightarrow>
          if length lineBytes \<ge> 2
             \<and> lineBytes ! (length lineBytes - 2) = CR
             \<and> lineBytes ! (length lineBytes - 1) = NL
          then ((take (length lineBytes - 2) lineBytes, None), b')
          else ((lineBytes, None), b'))"

section \<open>Readers on a healthy transport\<close>

text \<open>
  \<open>wire b\<close> is the byte stream that the reader \<open>b\<close> has still to deliver. The reader is
  \<open>clean\<close> when no error is pending and the transport delivers its bytes in non-empty
  blocks without errors, then end-of-stream.
\<close>

definition wire :: "bufio_Reader \<Rightarrow> byte list" where
  "wire b = buf b @ concat (map fst (rd b))"

definition clean_conn :: "conn_read list \<Rightarrow> bool" where
  "clean_conn rs = list_all (\<lambda>r. fst r \<noteq> [] \<and> snd r = None) rs"

definition clean :: "bufio_Reader \<Rightarrow> bool" where
  "clean b \<longleftrightarrow> err b = None \<and> clean_conn (rd b)"

lemma clean_newReader: "clean_conn rs \<Longrightarrow> clean (newReader rs) \<and> wire (newReader rs) = concat (map fst rs)"
  by (simp add: clean_def newReader_def NewReader_def wire_def)

lemma fill_Suc: "fill b = fill_loop (Suc 99) b"
  by (simp add: fill_def maxConsecutiveEmptyReads_def)

lemma fill_unfold:
  "fill b =
     (case conn_Read (defaultBufSize - length (buf b)) (rd b) of
        ((bs, e), rest) \<Rightarrow>
          let b' = b\<lparr>buf := buf b @ bs, rd := rest\<rparr>
          in if e \<noteq> None then b'\<lparr>err := e\<rparr>
             else if bs \<noteq> [] then b'
             else fill_loop 99 b')"
  by (subst fill_Suc) (rule fill_loop.simps(2))

lemma fill_clean:
  assumes "clean b" and "buf b = []" and "rd b \<noteq> []"
  shows "clean (fill b) \<and> wire (fill b) = wire b \<and> buf (fill b) \<noteq> []"
proof -
  obtain bs rest where rd: "rd b = (bs, None) # rest" and bs: "bs \<noteq> []"
    and rest: "clean_conn rest"
    using assms(1,3) by (cases "rd b") (auto simp: clean_def clean_conn_def)
  show ?thesis
  proof (cases "length bs \<le> defaultBufSize")
    case True
    then have "fill b = b\<lparr>buf := bs, rd := rest\<rparr>"
      using rd bs assms(2) by (simp add: fill_unfold conn_Read_def Let_def)
    then show ?thesis
      using assms(1,2) rd bs rest by (simp add: clean_def wire_def)
  next
    case False
    then have "fill b = b\<lparr>buf := take defaultBufSize bs,
        rd := (drop defaultBufSize bs, None) # rest\<rparr>"
      using rd bs assms(2) by (simp add: fill_unfold conn_Read_def Let_def defaultBufSize_def)
    then show ?thesis
      using assms(1,2) rd bs rest False
      by (simp add: clean_def clean_conn_def wire_def defaultBufSize_def)
  qed
qed

lemma fill_eof:
  assumes "buf b = []" and "rd b = []"
  shows "fill b = b\<lparr>err := Some EOF\<rparr>"
  using assms by (simp add: fill_unfold conn_Read_def Let_def)

lemma clean_wire_Nil: "clean b \<Longrightarrow> wire b = [] \<Longrightarrow> buf b = [] \<and> rd b = []"
  by (cases "rd b") (auto simp: clean_def clean_conn_def wire_def)

lemma ReadByte_clean:
  assumes "clean b" and "wire b = c # ws"
  shows "\<exists>b'. ReadByte b = (Inr c, b') \<and> clean b' \<and> wire b' = ws"
proof -
  have buffered: "\<And>b. clean b \<Longrightarrow> wire b = c # ws \<Longrightarrow> buf b \<noteq> [] \<Longrightarrow>
      \<exists>b'. ReadByte b = (Inr c, b') \<and> clean b' \<and> wire b' = ws"
  proof -
    fix b :: bufio_Reader
    assume b: "clean b" "wire b = c # ws" "buf b \<noteq> []"
    then obtain xs where "buf b = c # xs" by (cases "buf b") (auto simp: wire_def)
    then have "ReadByte b = (Inr c, b\<lparr>buf := xs\<rparr>)" by (simp add: ReadByte.simps [of b])
    then show "\<exists>b'. ReadByte b = (Inr c, b') \<and> clean b' \<and> wire b' = ws"
      using b \<open>buf b = c # xs\<close> by (simp add: clean_def wire_def)
  qed
  show ?thesis
  proof (cases "buf b = []")
    case False
    then show ?thesis using buffered assms by blast
  next
    case True
    then have "rd b \<noteq> []" using assms(2) by (auto simp: wire_def)
    note f = fill_clean [OF assms(1) True this]
    have "ReadByte b = ReadByte (fill b)"
      using True assms(1) by (simp add: ReadByte.simps [of b] clean_def)
    then show ?thesis using buffered [of "fill b"] f assms(2) by simp
  qed
qed

lemma ReadByte_clean_eof:
  assumes "clean b" and "wire b = []"
  shows "ReadByte b = (Inl EOF, b)"
proof -
  have e: "buf b = []" "rd b = []" using clean_wire_Nil [OF assms] by simp_all
  have "ReadByte b = ReadByte (fill b)"
    using e assms(1) by (simp add: ReadByte.simps [of b] clean_def)
  also have "\<dots> = (Inl EOF, b)"
    using e assms(1) by (simp add: fill_eof ReadByte.simps [of "b\<lparr>err := Some EOF\<rparr>"] clean_def)
  finally show ?thesis .
qed

lemma Peek_clean:
  assumes "clean b" and "wire b = c # ws"
  shows "\<exists>b'. Peek 1 b = (([c], None), b') \<and> clean b' \<and> wire b' = c # ws \<and> buf b' \<noteq> []"
proof -
  have buffered: "\<And>b. clean b \<Longrightarrow> wire b = c # ws \<Longrightarrow> buf b \<noteq> [] \<Longrightarrow>
      Peek_fill 1 b = b \<and> Peek 1 b = (([c], None), b)"
  proof -
    fix b :: bufio_Reader
    assume b: "clean b" "wire b = c # ws" "buf b \<noteq> []"
    then obtain xs where xs: "buf b = c # xs" by (cases "buf b") (auto simp: wire_def)
    then have pf: "Peek_fill 1 b = b" by (subst Peek_fill.simps) simp
    then show "Peek_fill 1 b = b \<and> Peek 1 b = (([c], None), b)"
      using xs by (simp add: Peek_def Let_def defaultBufSize_def)
  qed
  show ?thesis
  proof (cases "buf b = []")
    case False
    then show ?thesis using buffered [of b] assms by simp
  next
    case True
    then have "rd b \<noteq> []" using assms(2) by (auto simp: wire_def)
    note f = fill_clean [OF assms(1) True this]
    have "Peek_fill 1 b = Peek_fill 1 (fill b)"
      using True assms(1) by (subst Peek_fill.simps) (simp add: clean_def defaultBufSize_def)
    also have "\<dots> = fill b" using buffered [of "fill b"] f assms(2) by simp
    finally have pf: "Peek_fill 1 b = fill b" .
    have same: "Peek_fill 1 b = Peek_fill 1 (fill b)"
      using pf buffered [of "fill b"] f assms(2) by simp
    have "Peek 1 (fill b) = (([c], None), fill b)"
      using buffered [of "fill b"] f assms(2) by simp
    moreover have "Peek 1 b = Peek 1 (fill b)"
      unfolding Peek_def same ..
    ultimately have "Peek 1 b = (([c], None), fill b)" by simp
    then show ?thesis using f assms(2) by simp
  qed
qed

lemma Discard_loop_clean:
  "clean b0 \<Longrightarrow> 0 < remain \<Longrightarrow> remain \<le> length (wire b0) \<Longrightarrow>
   \<exists>b'. Discard_loop n remain b0 = ((n, None), b') \<and> clean b' \<and>
        wire b' = drop remain (wire b0)"
proof (induction remain arbitrary: b0 rule: less_induct)
  case (less remain)
  define b where "b = (if Buffered b0 = 0 then fill b0 else b0)"
  define skip where "skip = min (Buffered b) remain"
  define b1 where "b1 = b\<lparr>buf := drop skip (buf b)\<rparr>"
  define remain' where "remain' = remain - skip"
  have b: "clean b \<and> wire b = wire b0 \<and> buf b \<noteq> []"
  proof (cases "buf b0 = []")
    case True
    then have "rd b0 \<noteq> []" using less.prems(2,3) by (auto simp: wire_def)
    from fill_clean [OF less.prems(1) True this] show ?thesis
      using True by (simp add: b_def Buffered_def)
  next
    case False
    then show ?thesis using less.prems(1) by (simp add: b_def Buffered_def)
  qed
  have skip: "0 < skip" "skip \<le> length (buf b)" "skip \<le> remain"
    using b less.prems(2) by (simp_all add: skip_def Buffered_def)
  have "wire b1 = drop skip (wire b)"
    using skip(2) by (simp add: b1_def wire_def)
  moreover have "clean b1" using b by (simp add: b1_def clean_def)
  ultimately have b1: "clean b1 \<and> wire b1 = drop skip (wire b0)"
    using b by simp
  have unfold: "Discard_loop n remain b0 =
      (if remain' = 0 then ((n, None), b1)
       else if err b1 \<noteq> None then (case readErr b1 of (e, b'') \<Rightarrow> ((n - remain', e), b''))
       else Discard_loop n remain' b1)"
    by (subst Discard_loop.simps) (simp add: Let_def b_def skip_def b1_def remain'_def)
  show ?case
  proof (cases "remain' = 0")
    case True
    then have "skip = remain" using skip(3) by (simp add: remain'_def)
    then show ?thesis using unfold True b1 by simp
  next
    case False
    have smaller: "remain' < remain" using skip(1) less.prems(2) by (simp add: remain'_def)
    have pos: "0 < remain'" using False by simp
    have fits: "remain' \<le> length (wire b1)"
      using b1 less.prems(3) by (simp add: remain'_def)
    from less.IH [OF smaller conjunct1 [OF b1] pos fits]
    obtain b' where rec: "Discard_loop n remain' b1 = ((n, None), b')" "clean b'"
      "wire b' = drop remain' (wire b1)"
      by blast
    have "drop remain' (wire b1) = drop remain (wire b0)"
      using b1 skip(3) by (simp add: remain'_def)
    moreover have "Discard_loop n remain b0 = Discard_loop n remain' b1"
      using unfold False b1 by (simp add: clean_def)
    ultimately show ?thesis using rec by simp
  qed
qed

lemma Discard_clean:
  assumes "clean b" and "0 < n" and "n \<le> length (wire b)"
  shows "\<exists>b'. Discard n b = ((n, None), b') \<and> clean b' \<and> wire b' = drop n (wire b)"
  using Discard_loop_clean [OF assms(1,2,3), of n] assms(2) by (simp add: Discard_def)

text \<open>The loop for a subnegotiation, on a payload in which every byte 255 is doubled.\<close>

lemma escaped_Nil: "escaped [] = []"
  by (simp add: escaped_def)

lemma escaped_Cons:
  "escaped (c # cs) = (if c = IAC then [IAC, IAC] else [c]) @ escaped cs"
  by (simp add: escaped_def)

lemma escaped_append: "escaped (xs @ ys) = escaped xs @ escaped ys"
  by (simp add: escaped_def)

lemma skip_SB_payload:
  "clean b \<Longrightarrow> wire b = escaped q @ IAC # SE # ws \<Longrightarrow>
   \<exists>b'. skip_SB b = (None, b') \<and> clean b' \<and> wire b' = ws"
proof (induction q arbitrary: b)
  case Nil
  then have w: "wire b = IAC # SE # ws" by (simp add: escaped_Nil)
  from ReadByte_clean [OF Nil(1) w]
  obtain b1 where b1: "ReadByte b = (Inr IAC, b1)" "clean b1" "wire b1 = SE # ws" by blast
  from Peek_clean [OF b1(2,3)]
  obtain b3 where b3: "Peek 1 b1 = (([SE], None), b3)" "clean b3" "wire b3 = SE # ws" by blast
  from Discard_clean [OF b3(2), of 1] b3(3)
  obtain b4 where b4: "Discard 1 b3 = ((1, None), b4)" "clean b4" "wire b4 = ws" by auto
  have "skip_SB b = (None, b4)"
    using b1(1) b3(1) b4(1) by (simp add: skip_SB.simps [of b])
  then show ?case using b4 by simp
next
  case (Cons c q)
  show ?case
  proof (cases "c = IAC")
    case False
    then have w: "wire b = c # escaped q @ IAC # SE # ws"
      using Cons.prems(2) by (simp add: escaped_Cons)
    from ReadByte_clean [OF Cons.prems(1) w]
    obtain b1 where b1: "ReadByte b = (Inr c, b1)" "clean b1"
      "wire b1 = escaped q @ IAC # SE # ws" by blast
    have "skip_SB b = skip_SB b1"
      using b1(1) False by (simp add: skip_SB.simps [of b])
    then show ?thesis using Cons.IH [OF b1(2,3)] by simp
  next
    case True
    then have w: "wire b = IAC # IAC # escaped q @ IAC # SE # ws"
      using Cons.prems(2) by (simp add: escaped_Cons)
    from ReadByte_clean [OF Cons.prems(1) w]
    obtain b1 where b1: "ReadByte b = (Inr IAC, b1)" "clean b1"
      "wire b1 = IAC # escaped q @ IAC # SE # ws" by blast
    from Peek_clean [OF b1(2,3)]
    obtain b3 where b3: "Peek 1 b1 = (([IAC], None), b3)" "clean b3"
      "wire b3 = IAC # escaped q @ IAC # SE # ws" by blast
    from Discard_clean [OF b3(2), of 1] b3(3)
    obtain b4 where b4: "Discard 1 b3 = ((1, None), b4)" "clean b4"
      "wire b4 = escaped q @ IAC # SE # ws" by auto
    have "IAC \<noteq> SE" by (simp add: IAC_def SE_def)
    then have "skip_SB b = skip_SB b4"
      using b1(1) b3(1) b4(1) by (simp add: skip_SB.simps [of b])
    then show ?thesis using Cons.IH [OF b4(2,3)] by simp
  qed
qed

section \<open>The rounds of \<open>Read\<close>, one by one\<close>

lemma Read_loop_exit:
  assumes "k = 0 \<or> (out \<noteq> [] \<and> buf b = [])"
  shows "Read_loop k out b = ((out, None), b)"
proof (cases "k = 0")
  case True
  then show ?thesis by (subst Read_loop.simps) simp
next
  case False
  then have "out \<noteq> []" "buf b = []" using assms by simp_all
  then show ?thesis by (subst Read_loop.simps) (simp add: Buffered_def)
qed

lemma Read_loop_error:
  assumes "0 < k" and "out = [] \<or> buf b \<noteq> []" and "ReadByte b = (Inl e, b1)"
  shows "Read_loop k out b = ((out, Some e), b1)"
  using assms by (subst Read_loop.simps [of k out b]) (auto simp: Buffered_def)

lemma Read_loop_data:
  assumes "0 < k" and "out = [] \<or> buf b \<noteq> []" and "ReadByte b = (Inr c, b1)"
    and "c \<noteq> IAC"
  shows "Read_loop k out b = Read_loop (k - 1) (out @ [c]) b1"
  using assms by (subst Read_loop.simps [of k out b]) (auto simp: Buffered_def)

lemma Read_loop_literal:
  assumes "0 < k" and "out = [] \<or> buf b \<noteq> []" and "ReadByte b = (Inr IAC, b1)"
    and "Peek 1 b1 = ((IAC # ps, None), b2)" and "Discard 1 b2 = ((d, None), b3)"
  shows "Read_loop k out b = Read_loop (k - 1) (out @ [IAC]) b3"
proof -
  have "\<not> (IAC = WILL \<or> IAC = WONT \<or> IAC = DO \<or> IAC = DONT)"
    by (simp add: wire_defs)
  then show ?thesis
    using assms by (subst Read_loop.simps [of k out b]) (auto simp: Buffered_def)
qed

lemma Read_loop_subnegotiation:
  assumes "0 < k" and "out = [] \<or> buf b \<noteq> []" and "ReadByte b = (Inr IAC, b1)"
    and "Peek 1 b1 = ((SB # ps, None), b2)" and "skip_SB b2 = (None, b3)"
  shows "Read_loop k out b = Read_loop k out b3"
proof -
  have "\<not> (SB = WILL \<or> SB = WONT \<or> SB = DO \<or> SB = DONT)" "SB \<noteq> IAC"
    by (simp_all add: wire_defs)
  then show ?thesis
    using assms by (subst Read_loop.simps [of k out b]) (auto simp: Buffered_def)
qed

lemma Read_loop_corrupted:
  assumes "0 < k" and "out = [] \<or> buf b \<noteq> []" and "ReadByte b = (Inr IAC, b1)"
    and "Peek 1 b1 = ((p # ps, None), b2)"
    and "p \<noteq> WILL" "p \<noteq> WONT" "p \<noteq> DO" "p \<noteq> DONT" "p \<noteq> IAC" "p \<noteq> SB" "p \<noteq> SE"
  shows "Read_loop k out b = ((out, Some Corrupted), b2)"
  using assms by (subst Read_loop.simps [of k out b]) (auto simp: Buffered_def)

section \<open>Well-formed streams\<close>

text \<open>
  A well-formed stream is a sequence of items: a data byte, escaped on the wire, or a
  subnegotiation, whose payload has every byte 255 doubled and which produces no data.
\<close>

datatype item = Data byte | Subnegotiation "byte list"

fun encode :: "item \<Rightarrow> byte list" where
  "encode (Data c) = (if c = IAC then [IAC, IAC] else [c])"
| "encode (Subnegotiation q) = [IAC, SB] @ escaped q @ [IAC, SE]"

fun decoded :: "item \<Rightarrow> byte list" where
  "decoded (Data c) = [c]"
| "decoded (Subnegotiation q) = []"

definition wire_of :: "item list \<Rightarrow> byte list" where
  "wire_of ts = concat (map encode ts)"

definition data_of :: "item list \<Rightarrow> byte list" where
  "data_of ts = concat (map decoded ts)"

lemma wire_of_Data: "wire_of (map Data bs) = escaped bs"
  by (induction bs) (simp_all add: wire_of_def escaped_def)

lemma data_of_Data: "data_of (map Data bs) = bs"
  by (induction bs) (simp_all add: data_of_def)

lemma wire_of_append: "wire_of (xs @ ys) = wire_of xs @ wire_of ys"
  by (simp add: wire_of_def)

lemma data_of_append: "data_of (xs @ ys) = data_of xs @ data_of ys"
  by (simp add: data_of_def)

lemma Read_loop_item:
  assumes "clean b" and "wire b = wire_of (t # ts)" and "0 < k" and "out = [] \<or> buf b \<noteq> []"
  shows "\<exists>k' b1. Read_loop k out b = Read_loop k' (out @ decoded t) b1 \<and>
           clean b1 \<and> wire b1 = wire_of ts \<and> (decoded t = [] \<longrightarrow> k' = k)"
proof (cases t)
  case (Data c)
  show ?thesis
  proof (cases "c = IAC")
    case False
    then have w: "wire b = c # wire_of ts" using assms(2) Data by (simp add: wire_of_def)
    from ReadByte_clean [OF assms(1) w]
    obtain b1 where b1: "ReadByte b = (Inr c, b1)" "clean b1" "wire b1 = wire_of ts" by blast
    from Read_loop_data [OF assms(3,4) b1(1) False]
    show ?thesis using b1 Data by auto
  next
    case True
    then have w: "wire b = IAC # IAC # wire_of ts" using assms(2) Data by (simp add: wire_of_def)
    from ReadByte_clean [OF assms(1) w]
    obtain b1 where b1: "ReadByte b = (Inr IAC, b1)" "clean b1" "wire b1 = IAC # wire_of ts"
      by blast
    from Peek_clean [OF b1(2,3)]
    obtain b2 where b2: "Peek 1 b1 = (([IAC], None), b2)" "clean b2"
      "wire b2 = IAC # wire_of ts" by blast
    from Discard_clean [OF b2(2), of 1] b2(3)
    obtain b3 where b3: "Discard 1 b2 = ((1, None), b3)" "clean b3" "wire b3 = wire_of ts"
      by auto
    from Read_loop_literal [OF assms(3,4) b1(1) b2(1) b3(1)]
    show ?thesis using b3 Data True by auto
  qed
next
  case (Subnegotiation q)
  then have w: "wire b = IAC # SB # escaped q @ IAC # SE # wire_of ts"
    using assms(2) by (simp add: wire_of_def)
  from ReadByte_clean [OF assms(1) w]
  obtain b1 where b1: "ReadByte b = (Inr IAC, b1)" "clean b1"
    "wire b1 = SB # escaped q @ IAC # SE # wire_of ts" by blast
  from Peek_clean [OF b1(2,3)]
  obtain b2 where b2: "Peek 1 b1 = (([SB], None), b2)" "clean b2"
    "wire b2 = SB # escaped q @ IAC # SE # wire_of ts" by blast
  from ReadByte_clean [OF b2(2,3)]
  obtain b2' where b2': "ReadByte b2 = (Inr SB, b2')" "clean b2'"
    "wire b2' = escaped q @ IAC # SE # wire_of ts" by blast
  from skip_SB_payload [OF b2'(2,3)]
  obtain b3 where b3: "skip_SB b2' = (None, b3)" "clean b3" "wire b3 = wire_of ts" by blast
  have "SB \<noteq> IAC" by (simp add: wire_defs)
  then have "skip_SB b2 = skip_SB b2'"
    using b2'(1) by (simp add: skip_SB.simps [of b2])
  then have "skip_SB b2 = (None, b3)" using b3(1) by simp
  from Read_loop_subnegotiation [OF assms(3,4) b1(1) b2(1) this]
  show ?thesis using b3 Subnegotiation by auto
qed

lemma Read_loop_items:
  "clean b \<Longrightarrow> wire b = wire_of ts \<Longrightarrow>
   \<exists>ts1 ts2 e b'. ts = ts1 @ ts2 \<and>
     Read_loop k out b = ((out @ data_of ts1, e), b') \<and> clean b' \<and> wire b' = wire_of ts2 \<and>
     ((e = None \<and> (0 < k \<and> out = [] \<longrightarrow> data_of ts1 \<noteq> [])) \<or>
      (e = Some EOF \<and> ts2 = [] \<and> out = [] \<and> data_of ts1 = []))"
proof (induction ts arbitrary: k out b)
  case Nil
  show ?case
  proof (cases "k = 0 \<or> (out \<noteq> [] \<and> buf b = [])")
    case True
    from Read_loop_exit [OF this] show ?thesis
      using Nil True by (auto simp: data_of_def)
  next
    case False
    have w: "wire b = []" using Nil(2) by (simp add: wire_of_def)
    then have "buf b = []" using clean_wire_Nil [OF Nil(1)] by simp
    then have out: "out = []" and k: "0 < k" using False by auto
    have "Read_loop k out b = ((out, Some EOF), b)"
      using Read_loop_error [OF k _ ReadByte_clean_eof [OF Nil(1) w]] out by simp
    then show ?thesis using Nil out by (auto simp: data_of_def)
  qed
next
  case (Cons t ts)
  show ?case
  proof (cases "k = 0 \<or> (out \<noteq> [] \<and> buf b = [])")
    case True
    have "t # ts = [] @ (t # ts)" by simp
    moreover have "Read_loop k out b = ((out @ data_of [], None), b)"
      using Read_loop_exit [OF True] by (simp add: data_of_def)
    moreover have "0 < k \<and> out = [] \<longrightarrow> data_of [] \<noteq> ([] :: byte list)"
      using True by auto
    ultimately show ?thesis using Cons.prems by blast
  next
    case False
    then have k: "0 < k" and nexit: "out = [] \<or> buf b \<noteq> []" by auto
    from Read_loop_item [OF Cons.prems k nexit]
    obtain k' b1 where step: "Read_loop k out b = Read_loop k' (out @ decoded t) b1"
      "clean b1" "wire b1 = wire_of ts" "decoded t = [] \<longrightarrow> k' = k"
      by blast
    from Cons.IH [OF step(2,3), of k' "out @ decoded t"]
    obtain ts1 ts2 e b' where ih: "ts = ts1 @ ts2"
      "Read_loop k' (out @ decoded t) b1 = (((out @ decoded t) @ data_of ts1, e), b')"
      "clean b'" "wire b' = wire_of ts2"
      "(e = None \<and> (0 < k' \<and> out @ decoded t = [] \<longrightarrow> data_of ts1 \<noteq> [])) \<or>
       (e = Some EOF \<and> ts2 = [] \<and> out @ decoded t = [] \<and> data_of ts1 = [])"
      by blast
    have d: "data_of (t # ts1) = decoded t @ data_of ts1" by (simp add: data_of_def)
    have "t # ts = (t # ts1) @ ts2" using ih(1) by simp
    moreover have "Read_loop k out b = ((out @ data_of (t # ts1), e), b')"
      using step(1) ih(2) d by simp
    moreover have "(e = None \<and> (0 < k \<and> out = [] \<longrightarrow> data_of (t # ts1) \<noteq> [])) \<or>
       (e = Some EOF \<and> ts2 = [] \<and> out = [] \<and> data_of (t # ts1) = [])"
      using ih(5) step(4) k d by auto
    ultimately show ?thesis using ih(3,4) by blast
  qed
qed

section \<open>Decoding a whole stream\<close>

lemma Read_calls_items:
  "clean b \<Longrightarrow> wire b = wire_of ts \<Longrightarrow> list_all (\<lambda>k. 0 < k) ks \<Longrightarrow>
   length (data_of ts) < length ks \<Longrightarrow>
   \<exists>b'. Read_calls ks b = ((data_of ts, Some EOF), b') \<and> clean b' \<and> wire b' = []"
proof (induction ks arbitrary: ts b)
  case Nil
  then show ?case by simp
next
  case (Cons k ks)
  have k: "0 < k" and ks: "list_all (\<lambda>k. 0 < k) ks" using Cons.prems(3) by simp_all
  from Read_loop_items [OF Cons.prems(1,2), of k "[]"]
  obtain ts1 ts2 e b1 where r: "ts = ts1 @ ts2"
    "reader_Read k b = ((data_of ts1, e), b1)" "clean b1" "wire b1 = wire_of ts2"
    "(e = None \<and> data_of ts1 \<noteq> []) \<or> (e = Some EOF \<and> ts2 = [] \<and> data_of ts1 = [])"
    using k by (auto simp: reader_Read_def)
  from r(5) show ?case
  proof
    assume eof: "e = Some EOF \<and> ts2 = [] \<and> data_of ts1 = []"
    then have "data_of ts = []" using r(1) by simp
    moreover have "wire b1 = []" using r(4) eof by (simp add: wire_of_def)
    ultimately show ?thesis using r(2,3) eof by simp
  next
    assume more: "e = None \<and> data_of ts1 \<noteq> []"
    have split: "data_of ts = data_of ts1 @ data_of ts2"
      using r(1) by (simp add: data_of_append)
    then have "length (data_of ts2) < length ks"
      using Cons.prems(4) more by (cases "data_of ts1") auto
    from Cons.IH [OF r(3,4) ks this]
    obtain b' where rest: "Read_calls ks b1 = ((data_of ts2, Some EOF), b')" "clean b'"
      "wire b' = []" by blast
    have "Read_calls (k # ks) b = ((data_of ts1 @ data_of ts2, Some EOF), b')"
      using r(2) more rest(1) by simp
    then show ?thesis using split rest(2,3) by simp
  qed
qed

text \<open>
  A subnegotiation payload as it stands on the wire, in the words of the claim: every byte
  255 in it is doubled.
\<close>

fun well_escaped :: "byte list \<Rightarrow> bool" where
  "well_escaped [] = True"
| "well_escaped [c] = (c \<noteq> IAC)"
| "well_escaped (c # d # cs) =
     (if c = IAC then d = IAC \<and> well_escaped cs else well_escaped (d # cs))"

lemma well_escaped_escaped: "well_escaped p \<Longrightarrow> \<exists>q. p = escaped q"
proof (induction p rule: well_escaped.induct)
  case 1
  have "[] = escaped []" by (simp add: escaped_Nil)
  then show ?case by blast
next
  case (2 c)
  then have "[c] = escaped [c]" by (simp add: escaped_Cons escaped_Nil)
  then show ?case by blast
next
  case (3 c d cs)
  show ?case
  proof (cases "c = IAC")
    case True
    then have "d = IAC" "well_escaped cs" using "3.prems" by simp_all
    then obtain q where "cs = escaped q" using "3.IH"(1) True by blast
    then have "c # d # cs = escaped (IAC # q)"
      using True \<open>d = IAC\<close> by (simp add: escaped_Cons)
    then show ?thesis by blast
  next
    case False
    then have "well_escaped (d # cs)" using "3.prems" by simp
    then obtain q where "d # cs = escaped q" using "3.IH"(2) False by blast
    then have "c # d # cs = escaped (c # q)"
      using False by (simp add: escaped_Cons)
    then show ?thesis by blast
  qed
qed

section \<open>Properties of the reader\<close>

text \<open>
  C4. Take a stream made of escaped data, then \<open>IAC SB\<close>, a payload in which every byte
  255 is doubled, \<open>IAC SE\<close>, then escaped data again, delivered by a healthy transport in
  blocks of any sizes. A caller that keeps calling \<open>Read\<close> with non-empty slices receives
  exactly the data before followed by the data after, then end-of-stream with nothing left
  on the wire: the bracketed run is consumed whole and yields no byte.
\<close>

theorem Read_strips_subnegotiation:
  assumes "clean b"
    and "wire b = escaped pfx @ [IAC, SB] @ payload @ [IAC, SE] @ escaped sfx"
    and "well_escaped payload"
    and "list_all (\<lambda>k. 0 < k) ks"
    and "length (pfx @ sfx) < length ks"
  shows "\<exists>b'. Read_calls ks b = ((pfx @ sfx, Some EOF), b') \<and> wire b' = []"
proof -
  obtain q where q: "payload = escaped q"
    using well_escaped_escaped [OF assms(3)] by blast
  let ?ts = "map Data pfx @ [Subnegotiation q] @ map Data sfx"
  have sub: "\<And>ts. wire_of (Subnegotiation q # ts) = [IAC, SB] @ escaped q @ [IAC, SE] @ wire_of ts"
    "\<And>ts. data_of (Subnegotiation q # ts) = data_of ts"
    by (simp_all add: wire_of_def data_of_def)
  have w: "wire b = wire_of ?ts"
    using assms(2) q by (simp add: wire_of_append wire_of_Data sub)
  have d: "data_of ?ts = pfx @ sfx"
    by (simp add: data_of_append data_of_Data sub)
  from Read_calls_items [OF assms(1) w assms(4)] assms(5) d
  show ?thesis by auto
qed

definition naws_stream :: bufio_Reader where
  "naws_stream = newReader
     [([104, 255], None), ([250, 31, 255, 255, 80], None), ([255, 240, 105, 255, 255], None)]"

theorem Read_strips_subnegotiation_witness:
  "clean naws_stream \<and> well_escaped [31, 255, 255, 80] \<and>
   (\<exists>b'. Read_calls [3, 1, 2, 5] naws_stream = (([104] @ [105, 255], Some EOF), b') \<and>
      wire b' = [])"
proof -
  have c: "clean naws_stream" by code_simp
  have w: "wire naws_stream =
      escaped [104] @ [IAC, SB] @ [31, 255, 255, 80] @ [IAC, SE] @ escaped [105, 255]"
    by code_simp
  have p: "well_escaped [31, 255, 255, 80]" by code_simp
  have k: "list_all (\<lambda>k. 0 < k) [3, 1, 2, 5 :: nat]" by simp
  have l: "length ([104 :: byte] @ [105, 255]) < length [3, 1, 2, 5 :: nat]" by simp
  from Read_strips_subnegotiation [OF c w p k l] c p show ?thesis by blast
qed

text \<open>
  C5, as found in the code: a call of \<open>Read\<close> with an empty destination slice returns at
  once, with no error, whatever stands on the wire.
\<close>

definition corrupt_stream :: bufio_Reader where
  "corrupt_stream = \<lparr>buf = [255, 1, 65], rd = [], err = None\<rparr>"

theorem Read_empty_slice_no_error:
  "reader_Read 0 corrupt_stream = (([], None), corrupt_stream)"
  by code_simp

text \<open>
  C5, amended. When the next two bytes on the wire are 255 and a byte that is none of
  \<open>WILL\<close>, \<open>WONT\<close>, \<open>DO\<close>, \<open>DONT\<close>, \<open>IAC\<close>, \<open>SB\<close>, \<open>SE\<close>, a call of \<open>Read\<close> with a non-empty
  destination slice returns the error \<open>corrupted\<close> and no byte. Only the byte 255 has been
  consumed: the offending byte and all that follows are still on the wire.
\<close>

theorem Read_corrupted:
  assumes "clean b" and "wire b = IAC # x # ws" and "0 < k"
    and "x \<noteq> WILL" "x \<noteq> WONT" "x \<noteq> DO" "x \<noteq> DONT" "x \<noteq> IAC" "x \<noteq> SB" "x \<noteq> SE"
  shows "\<exists>b'. reader_Read k b = (([], Some Corrupted), b') \<and> clean b' \<and> wire b' = x # ws"
proof -
  from ReadByte_clean [OF assms(1,2)]
  obtain b1 where b1: "ReadByte b = (Inr IAC, b1)" "clean b1" "wire b1 = x # ws" by blast
  from Peek_clean [OF b1(2,3)]
  obtain b2 where b2: "Peek 1 b1 = (([x], None), b2)" "clean b2" "wire b2 = x # ws" by blast
  have "Read_loop k [] b = (([], Some Corrupted), b2)"
    by (rule Read_loop_corrupted [OF assms(3) _ b1(1) b2(1) assms(4-10)]) simp
  then show ?thesis using b2 by (simp add: reader_Read_def)
qed

theorem Read_corrupted_witness:
  "clean corrupt_stream \<and>
   (\<exists>b'. reader_Read 4 corrupt_stream = (([], Some Corrupted), b') \<and> clean b' \<and>
      wire b' = [1, 65])"
proof -
  have c: "clean corrupt_stream" by code_simp
  have w: "wire corrupt_stream = IAC # 1 # [65]" by code_simp
  have x: "(1 :: byte) \<noteq> WILL" "(1 :: byte) \<noteq> WONT" "(1 :: byte) \<noteq> DO" "(1 :: byte) \<noteq> DONT"
    "(1 :: byte) \<noteq> IAC" "(1 :: byte) \<noteq> SB" "(1 :: byte) \<noteq> SE"
    by (simp_all add: wire_defs)
  have k: "0 < (4 :: nat)" by simp
  from Read_corrupted [OF c w k x] c show ?thesis by blast
qed

section \<open>Escaped writes and the round trip\<close>

lemma Write_loop_reliable:
  assumes "reliable wr"
  shows "\<exists>w'. Write_loop (recording wr) data buffer n (w, log) =
           Some ((n + int (length buffer) + int (length data), None),
                 (w', log @ buffer @ escaped data))"
proof (induction data arbitrary: buffer n w log)
  case Nil
  show ?case
  proof (cases "buffer = []")
    case True
    then show ?thesis by (simp add: escaped_Nil)
  next
    case False
    from LongWrite_reliable [OF assms, of buffer w log]
    obtain w' where "LongWrite (recording wr) buffer (w, log) =
        Some ((int (length buffer), None), (w', log @ buffer))" by blast
    then show ?thesis using False by (simp add: escaped_Nil)
  qed
next
  case (Cons v data)
  show ?case
  proof (cases "v = IAC")
    case False
    from Cons.IH [of "buffer @ [v]" n w log]
    obtain w' where "Write_loop (recording wr) data (buffer @ [v]) n (w, log) =
        Some ((n + int (length (buffer @ [v])) + int (length data), None),
              (w', log @ (buffer @ [v]) @ escaped data))" by blast
    then show ?thesis using False by (simp add: escaped_Cons)
  next
    case True
    obtain w1 where flush:
      "(if length buffer > 0 then
          Option.bind (LongWrite (recording wr) buffer (w, log)) (\<lambda>((numWritten, e), w').
            Some ((n + numWritten, e), w'))
        else Some ((n, None), (w, log))) =
       Some ((n + int (length buffer), None), (w1, log @ buffer))"
    proof (cases "buffer = []")
      case True
      then show ?thesis using that by simp
    next
      case False
      from LongWrite_reliable [OF assms, of buffer w log]
      obtain w' where "LongWrite (recording wr) buffer (w, log) =
          Some ((int (length buffer), None), (w', log @ buffer))" by blast
      then show ?thesis using that False by simp
    qed
    from LongWrite_reliable [OF assms, of EscapeIAC w1 "log @ buffer"]
    obtain w2 where iac: "LongWrite (recording wr) EscapeIAC (w1, log @ buffer) =
        Some ((int (length EscapeIAC), None), (w2, (log @ buffer) @ EscapeIAC))" by blast
    from Cons.IH [of "[]" "n + int (length buffer) + 1" w2 "(log @ buffer) @ EscapeIAC"]
    obtain w' where rest: "Write_loop (recording wr) data [] (n + int (length buffer) + 1)
        (w2, (log @ buffer) @ EscapeIAC) =
        Some ((n + int (length buffer) + 1 + int (length ([] :: byte list)) + int (length data),
               None), (w', ((log @ buffer) @ EscapeIAC) @ [] @ escaped data))" by blast
    have "Write_loop (recording wr) (v # data) buffer n (w, log) =
        Write_loop (recording wr) data [] (n + int (length buffer) + 1)
          (w2, (log @ buffer) @ EscapeIAC)"
      using True
      by (simp only: Write_loop.simps simp_thms if_False if_True flush iac
            Option.bind.simps prod.case option.case)
    then show ?thesis using rest True by (simp add: escaped_Cons EscapeIAC_def)
  qed
qed

section \<open>Properties of escaped writes\<close>

text \<open>
  C2, as found in the code: data of more than five bytes that begins with four bytes 255 is
  taken for a command. \<open>Write\<close> drops the four bytes, sends the rest unescaped and returns
  the length of the rest.
\<close>

theorem Write_signature_sent_raw:
  "writer_Write (recording buffer_Write) [255, 255, 255, 255, 65, 66] ([], []) =
     Some ((2, None), ([65, 66], [65, 66])) \<and>
   escaped [255, 255, 255, 255, 65, 66] = [255, 255, 255, 255, 255, 255, 255, 255, 65, 66]"
  by code_simp

text \<open>
  C2, amended. For every input that is not taken for a command (at most five bytes, or not
  beginning with four bytes 255), and every reliable underlying writer, \<open>Write\<close> puts
  exactly the escaped encoding of the input on the wire and returns the length of the input
  with no error.
\<close>

theorem Write_escapes:
  assumes "reliable wr"
    and "\<not> (length data > 5 \<and> take 4 data = commandSignature)"
  shows "\<exists>w'. writer_Write (recording wr) data (w, log) =
           Some ((int (length data), None), (w', log @ escaped data))"
proof -
  have "(length data > 5 \<and> take 4 data = commandSignature) = False"
    using assms(2) by blast
  then have "writer_Write (recording wr) data (w, log) =
      Write_loop (recording wr) data [] 0 (w, log)"
    unfolding writer_Write_def by (simp only: if_False)
  then show ?thesis
    using Write_loop_reliable [OF assms(1), of data "[]" 0 w log] by simp
qed

theorem Write_escapes_witness:
  "reliable short_Write \<and> length [1, 255, 2 :: byte] \<le> 5 \<and>
   (\<exists>w'. writer_Write (recording short_Write) [1, 255, 2] ([], []) =
      Some ((3, None), (w', [1, 255, 255, 2])))"
proof -
  have n: "\<not> (length [1, 255, 2 :: byte] > 5 \<and> take 4 [1, 255, 2 :: byte] = commandSignature)"
    by simp
  have e: "escaped [1, 255, 2] = [1, 255, 255, 2]" by code_simp
  from Write_escapes [OF reliable_short_Write n, of "[]" "[]"] e reliable_short_Write
  show ?thesis by simp
qed

text \<open>
  C1, as found in the code: six bytes that begin with four bytes 255 do not survive the
  round trip. \<open>Write\<close> sends only the last two, and these are what \<open>Read\<close> delivers.
\<close>

theorem round_trip_signature_lost:
  "writer_Write (recording buffer_Write) [255, 255, 255, 255, 255, 255] ([], []) =
     Some ((2, None), ([255, 255], [255, 255])) \<and>
   Read_calls [8, 8, 8, 8, 8, 8, 8] (newReader [([255, 255], None)]) =
     (([255], Some EOF), \<lparr>buf = [], rd = [], err = None\<rparr>)"
  by code_simp

text \<open>
  C1, amended. For every byte sequence that is not taken for a command (at most five bytes,
  or not beginning with four bytes 255), written through \<open>Write\<close> to a reliable writer:
  the write returns, and a reader whose healthy transport delivers the bytes sent, in
  blocks of any sizes, yields exactly the sequence to a caller that keeps calling
  \<open>Read\<close> with non-empty slices, then end-of-stream.
\<close>

theorem round_trip:
  assumes "reliable wr"
    and "\<not> (length B > 5 \<and> take 4 B = commandSignature)"
    and "list_all (\<lambda>k. 0 < k) ks" and "length B < length ks"
  shows "\<exists>res w' sent.
           writer_Write (recording wr) B (w, []) = Some (res, (w', sent)) \<and>
           (\<forall>b. clean b \<and> wire b = sent \<longrightarrow>
              (\<exists>b'. Read_calls ks b = ((B, Some EOF), b')))"
proof -
  have "(length B > 5 \<and> take 4 B = commandSignature) = False"
    using assms(2) by blast
  then have "writer_Write (recording wr) B (w, []) =
      Write_loop (recording wr) B [] 0 (w, [])"
    unfolding writer_Write_def by (simp only: if_False)
  with Write_loop_reliable [OF assms(1), of B "[]" 0 w "[]"]
  obtain w' where sent: "writer_Write (recording wr) B (w, []) =
      Some ((int (length B), None), (w', escaped B))"
    by auto
  have "\<exists>b'. Read_calls ks b = ((B, Some EOF), b')" if "clean b" "wire b = escaped B" for b
  proof -
    have w: "wire b = wire_of (map Data B)" using that(2) by (simp add: wire_of_Data)
    have "length (data_of (map Data B)) < length ks"
      using assms(4) by (simp add: data_of_Data)
    from Read_calls_items [OF that(1) w assms(3) this]
    show ?thesis by (auto simp: data_of_Data)
  qed
  then show ?thesis using sent by blast
qed

theorem round_trip_witness:
  "writer_Write (recording buffer_Write) [255, 255, 255, 255, 255] ([], []) =
     Some ((5, None),
       ([255, 255, 255, 255, 255, 255, 255, 255, 255, 255],
        [255, 255, 255, 255, 255, 255, 255, 255, 255, 255])) \<and>
   (\<exists>b'. Read_calls [2, 2, 2, 2, 2, 2]
      (newReader [([255, 255, 255], None), ([255, 255, 255, 255, 255, 255, 255], None)]) =
      (([255, 255, 255, 255, 255], Some EOF), b'))"
proof -
  let ?B = "[255, 255, 255, 255, 255 :: byte]"
  let ?b = "newReader [([255, 255, 255], None), ([255, 255, 255, 255, 255, 255, 255 :: byte], None)]"
  have n: "\<not> (length ?B > 5 \<and> take 4 ?B = commandSignature)" by simp
  have k: "list_all (\<lambda>k. 0 < k) [2, 2, 2, 2, 2, 2 :: nat]" by simp
  have l: "length ?B < length [2, 2, 2, 2, 2, 2 :: nat]" by simp
  have run: "writer_Write (recording buffer_Write) ?B ([], []) =
     Some ((5, None),
       ([255, 255, 255, 255, 255, 255, 255, 255, 255, 255],
        [255, 255, 255, 255, 255, 255, 255, 255, 255, 255]))"
    by code_simp
  have c: "clean ?b" by code_simp
  have w: "wire ?b = [255, 255, 255, 255, 255, 255, 255, 255, 255, 255]" by code_simp
  from round_trip [OF reliable_buffer_Write n k l, of "[]"]
  obtain res w' sent where o:
    "writer_Write (recording buffer_Write) ?B ([], []) = Some (res, (w', sent))"
    "\<forall>b. clean b \<and> wire b = sent \<longrightarrow>
       (\<exists>b'. Read_calls [2, 2, 2, 2, 2, 2] b = ((?B, Some EOF), b'))"
    by blast
  have "sent = [255, 255, 255, 255, 255, 255, 255, 255, 255, 255]"
    using o(1) unfolding run by auto
  then have "clean ?b \<and> wire ?b = sent" using c w by simp
  then have "\<exists>b'. Read_calls [2, 2, 2, 2, 2, 2] ?b = ((?B, Some EOF), b')"
    by (rule o(2) [rule_format])
  then show ?thesis using run by blast
qed

section \<open>Reading a line\<close>

text \<open>A call of \<open>Read\<close> with a one-byte slice delivers one byte, or fails and delivers none.\<close>

lemma Read_loop_one:
  "Read_loop 1 [] b = (r, b') \<Longrightarrow> (\<exists>c. r = ([c], None)) \<or> (\<exists>e. r = ([], Some e))"
proof (induction "remaining b" arbitrary: b rule: less_induct)
  case less
  from Read_loop_step [OF less.prems]
  consider
    (fail) e where "r = ([], Some e)"
  | (again) k' out1 b1 where "remaining b1 < remaining b"
      "Read_loop k' out1 b1 = (r, b')"
      "(k' = 1 \<and> out1 = []) \<or> (k' = 0 \<and> (\<exists>c. out1 = [c]))"
    by auto
  then show ?case
  proof cases
    case fail
    then show ?thesis by blast
  next
    case again
    from again(3) show ?thesis
    proof
      assume "k' = 1 \<and> out1 = []"
      then show ?thesis using less.hyps [OF again(1)] again(2) by blast
    next
      assume "k' = 0 \<and> (\<exists>c. out1 = [c])"
      then obtain c where c: "k' = 0" "out1 = [c]" by blast
      have "Read_loop 0 [c] b1 = (([c], None), b1)" by (rule Read_loop_exit) simp
      then show ?thesis using again(2) c by auto
    qed
  qed
qed

lemma reader_Read_one:
  obtains (byte) c b' where "reader_Read 1 b = (([c], None), b')"
  | (error) e b' where "reader_Read 1 b = (([], Some e), b')"
proof -
  obtain r b' where r: "Read_loop 1 [] b = (r, b')" by (metis prod.exhaust)
  from Read_loop_one [OF r] show ?thesis
    using r that by (auto simp: reader_Read_def)
qed

lemma ReadLine_loop_reads:
  "\<exists>m bs b'. NL \<notin> set bs \<and>
     ((Read_calls (replicate m 1) b = ((bs @ [NL], None), b') \<and>
       ReadLine_loop line b = (Inr (line @ bs @ [NL]), b')) \<or>
      (\<exists>e. Read_calls (replicate m 1) b = ((bs, Some e), b') \<and>
       ReadLine_loop line b = (Inl e, b')))"
proof (induction "remaining b" arbitrary: b line rule: less_induct)
  case less
  show ?case
  proof (cases b rule: reader_Read_one)
    case (error e b1)
    have "Read_calls (replicate 1 1) b = (([], Some e), b1)"
      using error by simp
    moreover have "ReadLine_loop line b = (Inl e, b1)"
      using error by (simp add: ReadLine_loop.simps [of line b])
    moreover have "NL \<notin> set ([] :: byte list)" by simp
    ultimately show ?thesis by blast
  next
    case (byte c b1)
    show ?thesis
    proof (cases "c = NL")
      case True
      have "Read_calls (replicate 1 1) b = (([] @ [NL], None), b1)"
        using byte True by simp
      moreover have "ReadLine_loop line b = (Inr (line @ [] @ [NL]), b1)"
        using byte True by (simp add: ReadLine_loop.simps [of line b])
      moreover have "NL \<notin> set ([] :: byte list)" by simp
      ultimately show ?thesis by blast
    next
      case False
      have "remaining b1 < remaining b"
        by (rule reader_Read_progress [OF byte]) simp_all
      from less.hyps [OF this, of "line @ [c]"]
      obtain m bs b' where ih: "NL \<notin> set bs"
        "(Read_calls (replicate m 1) b1 = ((bs @ [NL], None), b') \<and>
          ReadLine_loop (line @ [c]) b1 = (Inr ((line @ [c]) @ bs @ [NL]), b')) \<or>
         (\<exists>e. Read_calls (replicate m 1) b1 = ((bs, Some e), b') \<and>
          ReadLine_loop (line @ [c]) b1 = (Inl e, b'))"
        by blast
      have loop: "ReadLine_loop line b = ReadLine_loop (line @ [c]) b1"
        using byte False by (simp add: ReadLine_loop.simps [of line b])
      have calls: "Read_calls (replicate (Suc m) 1) b =
          (case Read_calls (replicate m 1) b1 of ((rest, e), b'') \<Rightarrow> ((c # rest, e), b''))"
        using byte by simp
      have nl: "NL \<notin> set (c # bs)" using ih(1) False by simp
      from ih(2) show ?thesis
      proof
        assume "Read_calls (replicate m 1) b1 = ((bs @ [NL], None), b') \<and>
          ReadLine_loop (line @ [c]) b1 = (Inr ((line @ [c]) @ bs @ [NL]), b')"
        then have "Read_calls (replicate (Suc m) 1) b = (((c # bs) @ [NL], None), b') \<and>
            ReadLine_loop line b = (Inr (line @ (c # bs) @ [NL]), b')"
          using loop calls by simp
        then show ?thesis using nl by blast
      next
        assume "\<exists>e. Read_calls (replicate m 1) b1 = ((bs, Some e), b') \<and>
          ReadLine_loop (line @ [c]) b1 = (Inl e, b')"
        then obtain e where "Read_calls (replicate (Suc m) 1) b = ((c # bs, Some e), b') \<and>
            ReadLine_loop line b = (Inl e, b')"
          using loop calls by auto
        then show ?thesis using nl by blast
      qed
    qed
  qed
qed

lemma ends_CR_NL:
  "(length (bs @ [NL]) \<ge> 2 \<and> (bs @ [NL]) ! (length (bs @ [NL]) - 2) = CR \<and>
    (bs @ [NL]) ! (length (bs @ [NL]) - 1) = NL) \<longleftrightarrow> (bs \<noteq> [] \<and> last bs = CR)"
proof (cases bs rule: rev_cases)
  case Nil
  then show ?thesis by simp
next
  case (snoc xs x)
  then show ?thesis by (simp add: nth_append)
qed

text \<open>
  C6. For every reader, \<open>ReadLine\<close> is determined by the successive calls of \<open>Read\<close> with a
  one-byte slice. Either some number of calls deliver bytes \<open>bs\<close> without a line feed and
  then a line feed: then \<open>ReadLine\<close> returns \<open>bs\<close> without its last byte when that is a
  carriage return, and \<open>bs\<close> with the line feed otherwise. Or the calls deliver bytes
  without a line feed and then fail: then \<open>ReadLine\<close> returns the empty string and that
  error. In both cases the reader is left as the calls leave it.
\<close>

theorem ReadLine_result:
  "\<exists>m bs b'. NL \<notin> set bs \<and>
     ((Read_calls (replicate m 1) b = ((bs @ [NL], None), b') \<and>
       ReadLine b = ((if bs \<noteq> [] \<and> last bs = CR then butlast bs else bs @ [NL], None), b')) \<or>
      (\<exists>e. Read_calls (replicate m 1) b = ((bs, Some e), b') \<and>
       ReadLine b = (([], Some e), b')))"
proof -
  from ReadLine_loop_reads [of b "[]"]
  obtain m bs b' where r: "NL \<notin> set bs"
    "(Read_calls (replicate m 1) b = ((bs @ [NL], None), b') \<and>
      ReadLine_loop [] b = (Inr ([] @ bs @ [NL]), b')) \<or>
     (\<exists>e. Read_calls (replicate m 1) b = ((bs, Some e), b') \<and>
      ReadLine_loop [] b = (Inl e, b'))"
    by blast
  from r(2) show ?thesis
  proof
    assume a: "Read_calls (replicate m 1) b = ((bs @ [NL], None), b') \<and>
      ReadLine_loop [] b = (Inr ([] @ bs @ [NL]), b')"
    have "ReadLine b =
        ((if bs \<noteq> [] \<and> last bs = CR then butlast bs else bs @ [NL], None), b')"
    proof (cases "bs \<noteq> [] \<and> last bs = CR")
      case True
      then have "take (length (bs @ [NL]) - 2) (bs @ [NL]) = butlast bs"
        by (cases bs rule: rev_cases) simp_all
      then show ?thesis
        using a True ends_CR_NL [of bs] unfolding ReadLine_def by simp
    next
      case False
      then show ?thesis
        using a ends_CR_NL [of bs] unfolding ReadLine_def by auto
    qed
    then show ?thesis using a r(1) by blast
  next
    assume "\<exists>e. Read_calls (replicate m 1) b = ((bs, Some e), b') \<and>
      ReadLine_loop [] b = (Inl e, b')"
    then obtain e where "Read_calls (replicate m 1) b = ((bs, Some e), b') \<and>
      ReadLine b = (([], Some e), b')"
      by (auto simp: ReadLine_def)
    then show ?thesis using r(1) by blast
  qed
qed

definition crlf_stream :: bufio_Reader where
  "crlf_stream = newReader [([104, 105, 13], None), ([10, 106], None)]"

theorem ReadLine_result_witness:
  "\<exists>m bs b'. NL \<notin> set bs \<and>
     ((Read_calls (replicate m 1) crlf_stream = ((bs @ [NL], None), b') \<and>
       ReadLine crlf_stream =
         ((if bs \<noteq> [] \<and> last bs = CR then butlast bs else bs @ [NL], None), b')) \<or>
      (\<exists>e. Read_calls (replicate m 1) crlf_stream = ((bs, Some e), b') \<and>
       ReadLine crlf_stream = (([], Some e), b')))"
  by (rule ReadLine_result)

lemma ReadLine_examples:
  "ReadLine crlf_stream = (([104, 105], None), \<lparr>buf = [106], rd = [], err = None\<rparr>)"
  "ReadLine (newReader [([104, 105, 10], None)]) =
     (([104, 105, 10], None), \<lparr>buf = [], rd = [], err = None\<rparr>)"
  "ReadLine (newReader [([104, 105], None)]) =
     (([], Some EOF), \<lparr>buf = [], rd = [], err = None\<rparr>)"
  by code_simp+

section \<open>Sessions (session source) and the window-size negotiation\<close>

text \<open>
  \<open>bytes.Replace(s, old, new, -1)\<close> for a non-empty \<open>old\<close>: every occurrence, from left to
  right, without overlap. (The session calls it with constant, non-empty patterns; for an
  empty pattern the model leaves \<open>s\<close> as it is.)
\<close>

function bytes_Replace :: "byte list \<Rightarrow> byte list \<Rightarrow> byte list \<Rightarrow> byte list" where
  "bytes_Replace s old new =
     (if s = [] \<or> old = [] then s
      else if take (length old) s = old
      then new @ bytes_Replace (drop (length old) s) old new
      else hd s # bytes_Replace (tl s) old new)"
  by pat_completeness auto
termination
  by (relation "measure (\<lambda>(s, old, new). length s)") auto

declare bytes_Replace.simps [simp del]

text \<open>
  The fields of \<open>Session\<close> that the modelled methods use: the line-discipline flag, the
  state of the reader and of the writer, and the window size.
\<close>

record 'w Session =
  isPTY :: bool
  reader :: bufio_Reader
  writer :: 'w
  termCols :: int
  termRows :: int

definition GetWindowSize :: "'w Session \<Rightarrow> int \<times> int" where
  "GetWindowSize s = (termCols s, termRows s)"

definition HasWindowSize :: "'w Session \<Rightarrow> bool" where
  "HasWindowSize s \<longleftrightarrow> termCols s > 0 \<and> termRows s > 0"

definition Session_Read :: "nat \<Rightarrow> 'w Session \<Rightarrow> (byte list \<times> error option) \<times> 'w Session" where
  "Session_Read k s =
     (case reader_Read k (reader s) of (r, b') \<Rightarrow> (r, s\<lparr>reader := b'\<rparr>))"

definition Session_Write ::
  "'w io_Writer \<Rightarrow> byte list \<Rightarrow> 'w Session \<Rightarrow> ((int \<times> error option) \<times> 'w Session) option" where
  "Session_Write wr data s =
     (if isPTY s then
        (let originalLength = int (length data);
             data1 = bytes_Replace data [NL] [CR, NL];
             data2 = bytes_Replace data1 [CR, CR, NL] [CR, NL]
         in Option.bind (writer_Write wr data2 (writer s)) (\<lambda>((bytesWritten, e), w').
              Some ((if bytesWritten > originalLength then originalLength else bytesWritten, e),
                    s\<lparr>writer := w'\<rparr>)))
      else
        Option.bind (writer_Write wr data (writer s)) (\<lambda>((n, e), w').
          Some ((n, e), s\<lparr>writer := w'\<rparr>)))"

text \<open>\<open>Session.WriteCommand\<close> is the package's \<open>WriteCommand\<close> with the session as the writer.\<close>

definition Session_WriteCommand ::
  "'w io_Writer \<Rightarrow> byte \<Rightarrow> byte \<Rightarrow> byte \<Rightarrow> 'w Session \<Rightarrow>
   ((int \<times> error option) \<times> 'w Session) option" where
  "Session_WriteCommand wr command option action s =
     Session_Write wr (commandSignature @ [command, option, action]) s"

text \<open>
  The loop that skips an unrelated subnegotiation: read up to the first byte 255 that is
  followed by \<open>SE\<close>.
\<close>

function skip_unrelated_SB :: "bufio_Reader \<Rightarrow> error option \<times> bufio_Reader" where
  "skip_unrelated_SB b =
     (case ReadByte b of
        (Inl e, b1) \<Rightarrow> (Some e, b1)
      | (Inr c, b1) \<Rightarrow>
          if c = IAC then
            (case ReadByte b1 of
               (Inl e, b2) \<Rightarrow> (Some e, b2)
             | (Inr nextB, b2) \<Rightarrow> if nextB = SE then (None, b2) else skip_unrelated_SB b2)
          else skip_unrelated_SB b1)"
  by pat_completeness auto
termination
proof (relation "measure remaining")
  show "wf (measure remaining)" by simp
next
  fix b x b1 c x1 b2 nextB
  assume "(x, b1) = ReadByte b" "x = Inr c" "(x1, b2) = ReadByte b1"
  then show "(b2, b) \<in> measure remaining"
    using ReadByte_remaining_less [of b c b1] ReadByte_remaining_le [of b1 x1 b2] by simp
next
  fix b x b1 c
  assume "(x, b1) = ReadByte b" "x = Inr c"
  then show "(b1, b) \<in> measure remaining"
    using ReadByte_remaining_less [of b c b1] by simp
qed

declare skip_unrelated_SB.simps [simp del]

text \<open>
  A slice made by \<open>make([]byte, k)\<close> after a read has stored the bytes \<open>bs\<close> in it: the
  bytes read, then zeros.
\<close>

definition stored :: "nat \<Rightarrow> byte list \<Rightarrow> byte list" where
  "stored k bs = take k (bs @ replicate (k - length bs) 0)"

text \<open>
  The wait of \<open>RequestWindowSize\<close>. The timer is outside the model: \<open>timer\<close> is the number
  of rounds that begin before the two seconds have passed; the round after them takes the
  timeout branch of the \<open>select\<close> and returns \<open>nil\<close>.
\<close>

fun RequestWindowSize_loop :: "nat \<Rightarrow> 'w Session \<Rightarrow> error option \<times> 'w Session" where
  "RequestWindowSize_loop 0 s = (None, s)"
| "RequestWindowSize_loop (Suc timer) s =
     (case Peek 1 (reader s) of
        ((peeked, Some e), b1) \<Rightarrow>
          if e = EOF then (None, s\<lparr>reader := b1\<rparr>)
          else (Some (Wrapped ''peek failed'' e), s\<lparr>reader := b1\<rparr>)
      | ((peeked, None), b1) \<Rightarrow>
          if peeked = [] then (Some Panic, s\<lparr>reader := b1\<rparr>)
          else if hd peeked = IAC then
            (case ReadByte b1 of
               (Inl e, b2) \<Rightarrow> (Some (Wrapped ''read IAC failed'' e), s\<lparr>reader := b2\<rparr>)
             | (Inr c, b2) \<Rightarrow>
                 (case ReadByte b2 of
                    (Inl e, b3) \<Rightarrow>
                      (Some (Wrapped ''read command after IAC failed'' e), s\<lparr>reader := b3\<rparr>)
                  | (Inr cmd, b3) \<Rightarrow>
                      if cmd = WILL \<or> cmd = WONT then
                        (case ReadByte b3 of
                           (Inl e, b4) \<Rightarrow>
                             (Some (Wrapped ''read option failed'' e), s\<lparr>reader := b4\<rparr>)
                         | (Inr opt, b4) \<Rightarrow>
                             if opt = NAWS \<and> cmd = WONT then (None, s\<lparr>reader := b4\<rparr>)
                             else RequestWindowSize_loop timer (s\<lparr>reader := b4\<rparr>))
                      else if cmd = SB then
                        (case ReadByte b3 of
                           (Inl e, b4) \<Rightarrow>
                             (Some (Wrapped ''read SB option failed'' e), s\<lparr>reader := b4\<rparr>)
                         | (Inr opt, b4) \<Rightarrow>
                             if opt = NAWS then
                               (case ReadFull 4 b4 of
                                  ((bs, Some e), b5) \<Rightarrow>
                                    (Some (Wrapped ''failed to read NAWS SB payload'' e),
                                     s\<lparr>reader := b5\<rparr>)
                                | ((bs, None), b5) \<Rightarrow>
                                    (case ReadFull 2 b5 of
                                       ((hs, Some e), b6) \<Rightarrow>
                                         (Some (Wrapped ''failed to read NAWS SB terminator'' e),
                                          s\<lparr>reader := b6\<rparr>)
                                     | ((hs, None), b6) \<Rightarrow>
                                         let payload = stored 4 bs; seHdr = stored 2 hs
                                         in if seHdr ! 0 \<noteq> IAC \<or> seHdr ! 1 \<noteq> SE
                                            then (Some InvalidNAWSTerminator, s\<lparr>reader := b6\<rparr>)
                                            else (None, s\<lparr>reader := b6,
                                              termCols :=
                                                push_bit 8 (uint (payload ! 0)) OR uint (payload ! 1),
                                              termRows :=
                                                push_bit 8 (uint (payload ! 2)) OR uint (payload ! 3)\<rparr>)))
                             else
                               (case skip_unrelated_SB b4 of
                                  (Some e, b5) \<Rightarrow>
                                    (Some (Wrapped ''skip SB error'' e), s\<lparr>reader := b5\<rparr>)
                                | (None, b5) \<Rightarrow>
                                    RequestWindowSize_loop timer (s\<lparr>reader := b5\<rparr>)))
                      else RequestWindowSize_loop timer (s\<lparr>reader := b3\<rparr>)))
          else (None, s\<lparr>reader := b1\<rparr>))"

definition RequestWindowSize ::
  "'w io_Writer \<Rightarrow> nat \<Rightarrow> 'w Session \<Rightarrow> (error option \<times> 'w Session) option" where
  "RequestWindowSize wr timer s =
     Option.bind (Session_WriteCommand wr IAC DO NAWS s) (\<lambda>((n, e), s1).
       case e of
         Some e' \<Rightarrow> Some (Some (Wrapped ''failed to send DO NAWS'' e'), s1)
       | None \<Rightarrow> Some (RequestWindowSize_loop timer s1))"


section \<open>Block reads on a healthy transport\<close>

lemma bufio_Read_clean:
  assumes "clean b" and "wire b \<noteq> []" and "0 < k" and "k < defaultBufSize"
  shows "\<exists>bs b'. bufio_Read k b = ((bs, None), b') \<and> bs \<noteq> [] \<and> length bs \<le> k \<and>
           clean b' \<and> wire b = bs @ wire b'"
proof (cases "buf b = []")
  case False
  then have "bufio_Read k b = ((take k (buf b), None), b\<lparr>buf := drop k (buf b)\<rparr>)"
    using assms(3) by (simp add: bufio_Read_def)
  moreover have "take k (buf b) \<noteq> []" using False assms(3) by simp
  moreover have "wire b = take k (buf b) @ wire (b\<lparr>buf := drop k (buf b)\<rparr>)"
    by (simp add: wire_def)
  moreover have "clean (b\<lparr>buf := drop k (buf b)\<rparr>)" using assms(1) by (simp add: clean_def)
  ultimately show ?thesis by auto
next
  case True
  then have "rd b \<noteq> []" using assms(2) by (auto simp: wire_def)
  then obtain c0 rest where rd: "rd b = (c0, None) # rest" and c0: "c0 \<noteq> []"
    and rest: "clean_conn rest"
    using assms(1) by (cases "rd b") (auto simp: clean_def clean_conn_def)
  have e: "err b = None" using assms(1) by (simp add: clean_def)
  show ?thesis
  proof (cases "length c0 \<le> defaultBufSize")
    case fits: True
    let ?b' = "b\<lparr>buf := drop k c0, rd := rest, err := None\<rparr>"
    have "bufio_Read k b = ((take k c0, None), ?b')"
      using True e rd c0 fits assms(3,4) by (simp add: bufio_Read_def conn_Read_def)
    moreover have "take k c0 \<noteq> []" using c0 assms(3) by simp
    moreover have "wire b = take k c0 @ wire ?b'" using True rd by (simp add: wire_def)
    moreover have "clean ?b'" using rest by (simp add: clean_def)
    ultimately show ?thesis by auto
  next
    case big: False
    let ?bs = "take defaultBufSize c0"
    let ?b' = "b\<lparr>buf := drop k ?bs, rd := (drop defaultBufSize c0, None) # rest, err := None\<rparr>"
    have bs: "?bs \<noteq> []" using c0 by (simp add: defaultBufSize_def)
    have "bufio_Read k b = ((take k ?bs, None), ?b')"
      using True e rd bs big assms(3,4) by (simp add: bufio_Read_def conn_Read_def)
    moreover have "take k ?bs \<noteq> []" using bs assms(3) by simp
    moreover have "wire b = take k ?bs @ wire ?b'"
    proof -
      have "take k ?bs @ drop k ?bs @ drop defaultBufSize c0 = c0"
        by (metis append.assoc append_take_drop_id)
      then show ?thesis using True rd by (simp add: wire_def)
    qed
    moreover have "clean ?b'" using rest big by (simp add: clean_def clean_conn_def)
    ultimately show ?thesis by auto
  qed
qed

lemma ReadAtLeast_loop_clean:
  "clean b \<Longrightarrow> k < defaultBufSize \<Longrightarrow> length acc \<le> k \<Longrightarrow>
   k - length acc \<le> length (wire b) \<Longrightarrow>
   \<exists>b'. ReadAtLeast_loop k acc b = ((acc @ take (k - length acc) (wire b), None), b') \<and>
        clean b' \<and> wire b' = drop (k - length acc) (wire b)"
proof (induction "k - length acc" arbitrary: acc b rule: less_induct)
  case less
  show ?case
  proof (cases "length acc < k")
    case False
    then have "ReadAtLeast_loop k acc b = ((acc, None), b)"
      by (subst ReadAtLeast_loop.simps) simp
    then show ?thesis using False less.prems(1) by simp
  next
    case True
    let ?need = "k - length acc"
    have need: "0 < ?need" "?need < defaultBufSize" using True less.prems(2) by simp_all
    have "wire b \<noteq> []" using less.prems(4) need(1) by auto
    from bufio_Read_clean [OF less.prems(1) this need]
    obtain bs b1 where r: "bufio_Read ?need b = ((bs, None), b1)" "bs \<noteq> []"
      "length bs \<le> ?need" "clean b1" "wire b = bs @ wire b1" by blast
    have step: "ReadAtLeast_loop k acc b = ReadAtLeast_loop k (acc @ bs) b1"
      using True r(1) by (subst ReadAtLeast_loop.simps) simp
    have smaller: "k - length (acc @ bs) < k - length acc"
      using True r(2) by (cases bs) auto
    have fits: "length (acc @ bs) \<le> k" using r(3) True by simp
    have enough: "k - length (acc @ bs) \<le> length (wire b1)"
      using less.prems(4) r(5) by simp
    from less.hyps [OF smaller r(4) less.prems(2) fits enough]
    obtain b' where rec: "ReadAtLeast_loop k (acc @ bs) b1 =
        (((acc @ bs) @ take (k - length (acc @ bs)) (wire b1), None), b')" "clean b'"
      "wire b' = drop (k - length (acc @ bs)) (wire b1)" by blast
    have "take ?need (wire b) = bs @ take (k - length (acc @ bs)) (wire b1)"
      using r(3,5) by simp
    moreover have "drop ?need (wire b) = drop (k - length (acc @ bs)) (wire b1)"
      using r(3,5) by simp
    ultimately show ?thesis using step rec by simp
  qed
qed

lemma ReadFull_clean:
  assumes "clean b" and "k < defaultBufSize" and "k \<le> length (wire b)"
  shows "\<exists>b'. ReadFull k b = ((take k (wire b), None), b') \<and> clean b' \<and>
           wire b' = drop k (wire b)"
proof -
  from ReadAtLeast_loop_clean [OF assms(1,2), of "[]"] assms(3)
  obtain b' where "ReadAtLeast_loop k [] b = ((take k (wire b), None), b')" "clean b'"
    "wire b' = drop k (wire b)" by auto
  then show ?thesis using assms(3) by (simp add: ReadFull_def)
qed

section \<open>The rounds of the window-size wait\<close>

lemma writer_Write_command:
  assumes "reliable wr"
  shows "\<exists>w'. writer_Write (recording wr) (commandSignature @ [c, o', a]) (w, log) =
           Some ((3, None), (w', log @ [c, o', a]))"
proof -
  let ?data = "commandSignature @ [c, o', a]"
  have "length ?data > 5 \<and> take 4 ?data = commandSignature" "drop 4 ?data = [c, o', a]"
    by (simp_all add: commandSignature_def)
  then have "writer_Write (recording wr) ?data (w, log) =
      LongWrite (recording wr) [c, o', a] (w, log)"
    unfolding writer_Write_def by simp
  then show ?thesis
    using LongWrite_reliable [OF assms, of "[c, o', a]" w log] by simp
qed

lemma send_DO_NAWS:
  assumes "reliable wr" and "writer s = (w, log)"
  shows "\<exists>w'. Session_WriteCommand (recording wr) IAC DO NAWS s =
           Some ((3, None), s\<lparr>writer := (w', log @ [IAC, DO, NAWS])\<rparr>)"
proof -
  let ?data = "commandSignature @ [IAC, DO, NAWS]"
  have rep: "bytes_Replace (bytes_Replace ?data [NL] [CR, NL]) [CR, CR, NL] [CR, NL] = ?data"
    by code_simp
  from writer_Write_command [OF assms(1), of IAC DO NAWS w log]
  obtain w' where sent: "writer_Write (recording wr) ?data (w, log) =
      Some ((3, None), (w', log @ [IAC, DO, NAWS]))" by blast
  have "Session_WriteCommand (recording wr) IAC DO NAWS s =
      Some ((3, None), s\<lparr>writer := (w', log @ [IAC, DO, NAWS])\<rparr>)"
  proof (cases "isPTY s")
    case True
    then show ?thesis
      unfolding Session_WriteCommand_def Session_Write_def Let_def rep
      using sent assms(2) by (simp add: commandSignature_def)
  next
    case False
    then show ?thesis
      unfolding Session_WriteCommand_def Session_Write_def
      using sent assms(2) by simp
  qed
  then show ?thesis by blast
qed

lemma wait_timeout: "RequestWindowSize_loop 0 s = (None, s)"
  by simp

lemma wait_plain_byte:
  assumes "clean (reader s)" and "wire (reader s) = x # ws" and "x \<noteq> IAC"
  shows "\<exists>b'. RequestWindowSize_loop (Suc timer) s = (None, s\<lparr>reader := b'\<rparr>) \<and>
           clean b' \<and> wire b' = x # ws"
proof -
  from Peek_clean [OF assms(1,2)]
  obtain b1 where b1: "Peek 1 (reader s) = (([x], None), b1)" "clean b1" "wire b1 = x # ws"
    by blast
  have "RequestWindowSize_loop (Suc timer) s = (None, s\<lparr>reader := b1\<rparr>)"
    using b1(1) assms(3) by simp
  then show ?thesis using b1 by blast
qed

lemma wait_reply:
  assumes "clean (reader s)" and "wire (reader s) = IAC # v # opt # ws"
    and "v = WILL \<or> (v = WONT \<and> opt \<noteq> NAWS)"
  shows "\<exists>b'. RequestWindowSize_loop (Suc timer) s =
             RequestWindowSize_loop timer (s\<lparr>reader := b'\<rparr>) \<and>
           clean b' \<and> wire b' = ws"
proof -
  from Peek_clean [OF assms(1,2)]
  obtain b1 where b1: "Peek 1 (reader s) = (([IAC], None), b1)" "clean b1"
    "wire b1 = IAC # v # opt # ws" by blast
  from ReadByte_clean [OF b1(2,3)]
  obtain b2 where b2: "ReadByte b1 = (Inr IAC, b2)" "clean b2" "wire b2 = v # opt # ws"
    by blast
  from ReadByte_clean [OF b2(2,3)]
  obtain b3 where b3: "ReadByte b2 = (Inr v, b3)" "clean b3" "wire b3 = opt # ws"
    by blast
  from ReadByte_clean [OF b3(2,3)]
  obtain b4 where b4: "ReadByte b3 = (Inr opt, b4)" "clean b4" "wire b4 = ws"
    by blast
  have "WILL \<noteq> WONT" by (simp add: wire_defs)
  then have "RequestWindowSize_loop (Suc timer) s =
      RequestWindowSize_loop timer (s\<lparr>reader := b4\<rparr>)"
    using b1(1) b2(1) b3(1) b4(1) assms(3) by auto
  then show ?thesis using b4 by blast
qed

lemma shift_or_add: "push_bit 8 (uint (hi :: byte)) OR uint (lo :: byte) = 256 * uint hi + uint lo"
proof -
  have "push_bit 8 (uint hi) AND uint lo = 0"
    by (auto simp: bit_eq_iff bit_simps dest: bit_imp_le_length)
  then have "push_bit 8 (uint hi) OR uint lo = push_bit 8 (uint hi) + uint lo"
    by (simp add: disjunctive_add_eq_or)
  then show ?thesis by (simp add: push_bit_eq_mult)
qed

lemma wait_SB_NAWS:
  assumes "clean (reader s)"
    and "wire (reader s) = IAC # SB # NAWS # wh # wl # hh # hl # IAC # SE # ws"
  shows "\<exists>b'. RequestWindowSize_loop (Suc timer) s =
             (None, s\<lparr>reader := b', termCols := 256 * uint wh + uint wl,
                       termRows := 256 * uint hh + uint hl\<rparr>) \<and>
           clean b' \<and> wire b' = ws"
proof -
  from Peek_clean [OF assms]
  obtain b1 where b1: "Peek 1 (reader s) = (([IAC], None), b1)" "clean b1"
    "wire b1 = IAC # SB # NAWS # wh # wl # hh # hl # IAC # SE # ws" by blast
  from ReadByte_clean [OF b1(2,3)]
  obtain b2 where b2: "ReadByte b1 = (Inr IAC, b2)" "clean b2"
    "wire b2 = SB # NAWS # wh # wl # hh # hl # IAC # SE # ws" by blast
  from ReadByte_clean [OF b2(2,3)]
  obtain b3 where b3: "ReadByte b2 = (Inr SB, b3)" "clean b3"
    "wire b3 = NAWS # wh # wl # hh # hl # IAC # SE # ws" by blast
  from ReadByte_clean [OF b3(2,3)]
  obtain b4 where b4: "ReadByte b3 = (Inr NAWS, b4)" "clean b4"
    "wire b4 = wh # wl # hh # hl # IAC # SE # ws" by blast
  from ReadFull_clean [OF b4(2), of 4] b4(3)
  obtain b5 where b5: "ReadFull 4 b4 = (([wh, wl, hh, hl], None), b5)" "clean b5"
    "wire b5 = IAC # SE # ws" by (auto simp: defaultBufSize_def)
  from ReadFull_clean [OF b5(2), of 2] b5(3)
  obtain b6 where b6: "ReadFull 2 b5 = (([IAC, SE], None), b6)" "clean b6"
    "wire b6 = ws" by (auto simp: defaultBufSize_def)
  have st: "stored 4 [wh, wl, hh, hl] = [wh, wl, hh, hl]" "stored 2 [IAC, SE] = [IAC, SE]"
    by (simp_all add: stored_def)
  have "\<not> (SB = WILL \<or> SB = WONT)" by (simp add: wire_defs)
  then have "RequestWindowSize_loop (Suc timer) s =
      (None, s\<lparr>reader := b6,
         termCols := push_bit 8 (uint wh) OR uint wl,
         termRows := push_bit 8 (uint hh) OR uint hl\<rparr>)"
    using b1(1) b2(1) b3(1) b4(1) b5(1) b6(1) st by (simp add: Let_def)
  then show ?thesis using b6 by (auto simp: shift_or_add)
qed

text \<open>The loop over an unrelated subnegotiation, on a payload in which every byte 255 is doubled.\<close>

lemma skip_unrelated_SB_payload:
  "clean b \<Longrightarrow> wire b = escaped q @ IAC # SE # ws \<Longrightarrow>
   \<exists>b'. skip_unrelated_SB b = (None, b') \<and> clean b' \<and> wire b' = ws"
proof (induction q arbitrary: b)
  case Nil
  then have w: "wire b = IAC # SE # ws" by (simp add: escaped_Nil)
  from ReadByte_clean [OF Nil(1) w]
  obtain b1 where b1: "ReadByte b = (Inr IAC, b1)" "clean b1" "wire b1 = SE # ws" by blast
  from ReadByte_clean [OF b1(2,3)]
  obtain b2 where b2: "ReadByte b1 = (Inr SE, b2)" "clean b2" "wire b2 = ws" by blast
  have "skip_unrelated_SB b = (None, b2)"
    using b1(1) b2(1) by (simp add: skip_unrelated_SB.simps [of b])
  then show ?case using b2 by simp
next
  case (Cons c q)
  show ?case
  proof (cases "c = IAC")
    case False
    then have w: "wire b = c # escaped q @ IAC # SE # ws"
      using Cons.prems(2) by (simp add: escaped_Cons)
    from ReadByte_clean [OF Cons.prems(1) w]
    obtain b1 where b1: "ReadByte b = (Inr c, b1)" "clean b1"
      "wire b1 = escaped q @ IAC # SE # ws" by blast
    have "skip_unrelated_SB b = skip_unrelated_SB b1"
      using b1(1) False by (simp add: skip_unrelated_SB.simps [of b])
    then show ?thesis using Cons.IH [OF b1(2,3)] by simp
  next
    case True
    then have w: "wire b = IAC # IAC # escaped q @ IAC # SE # ws"
      using Cons.prems(2) by (simp add: escaped_Cons)
    from ReadByte_clean [OF Cons.prems(1) w]
    obtain b1 where b1: "ReadByte b = (Inr IAC, b1)" "clean b1"
      "wire b1 = IAC # escaped q @ IAC # SE # ws" by blast
    from ReadByte_clean [OF b1(2,3)]
    obtain b2 where b2: "ReadByte b1 = (Inr IAC, b2)" "clean b2"
      "wire b2 = escaped q @ IAC # SE # ws" by blast
    have "IAC \<noteq> SE" by (simp add: IAC_def SE_def)
    then have "skip_unrelated_SB b = skip_unrelated_SB b2"
      using b1(1) b2(1) by (simp add: skip_unrelated_SB.simps [of b])
    then show ?thesis using Cons.IH [OF b2(2,3)] by simp
  qed
qed

lemma wait_unrelated:
  assumes "clean (reader s)"
    and "wire (reader s) = IAC # SB # opt # escaped q @ IAC # SE # ws"
    and "opt \<noteq> NAWS"
  shows "\<exists>b'. RequestWindowSize_loop (Suc timer) s =
             RequestWindowSize_loop timer (s\<lparr>reader := b'\<rparr>) \<and>
           clean b' \<and> wire b' = ws"
proof -
  from Peek_clean [OF assms(1,2)]
  obtain b1 where b1: "Peek 1 (reader s) = (([IAC], None), b1)" "clean b1"
    "wire b1 = IAC # SB # opt # escaped q @ IAC # SE # ws" by blast
  from ReadByte_clean [OF b1(2,3)]
  obtain b2 where b2: "ReadByte b1 = (Inr IAC, b2)" "clean b2"
    "wire b2 = SB # opt # escaped q @ IAC # SE # ws" by blast
  from ReadByte_clean [OF b2(2,3)]
  obtain b3 where b3: "ReadByte b2 = (Inr SB, b3)" "clean b3"
    "wire b3 = opt # escaped q @ IAC # SE # ws" by blast
  from ReadByte_clean [OF b3(2,3)]
  obtain b4 where b4: "ReadByte b3 = (Inr opt, b4)" "clean b4"
    "wire b4 = escaped q @ IAC # SE # ws" by blast
  from skip_unrelated_SB_payload [OF b4(2,3)]
  obtain b5 where b5: "skip_unrelated_SB b4 = (None, b5)" "clean b5" "wire b5 = ws" by blast
  have "\<not> (SB = WILL \<or> SB = WONT)" by (simp add: wire_defs)
  then have "RequestWindowSize_loop (Suc timer) s =
      RequestWindowSize_loop timer (s\<lparr>reader := b5\<rparr>)"
    using b1(1) b2(1) b3(1) b4(1) b5(1) assms(3) by simp
  then show ?thesis using b5 by blast
qed

lemma wait_command:
  assumes "clean (reader s)" and "wire (reader s) = IAC # c # ws"
    and "c \<noteq> WILL" "c \<noteq> WONT" "c \<noteq> SB"
  shows "\<exists>b'. RequestWindowSize_loop (Suc timer) s =
             RequestWindowSize_loop timer (s\<lparr>reader := b'\<rparr>) \<and>
           clean b' \<and> wire b' = ws"
proof -
  from Peek_clean [OF assms(1,2)]
  obtain b1 where b1: "Peek 1 (reader s) = (([IAC], None), b1)" "clean b1"
    "wire b1 = IAC # c # ws" by blast
  from ReadByte_clean [OF b1(2,3)]
  obtain b2 where b2: "ReadByte b1 = (Inr IAC, b2)" "clean b2" "wire b2 = c # ws" by blast
  from ReadByte_clean [OF b2(2,3)]
  obtain b3 where b3: "ReadByte b2 = (Inr c, b3)" "clean b3" "wire b3 = ws" by blast
  have "RequestWindowSize_loop (Suc timer) s =
      RequestWindowSize_loop timer (s\<lparr>reader := b3\<rparr>)"
    using b1(1) b2(1) b3(1) assms(3,4,5) by simp
  then show ?thesis using b3 by blast
qed

text \<open>
  What the wait passes over, one round each: a reply \<open>IAC WILL x\<close>, or \<open>IAC WONT x\<close> for
  an option other than \<open>NAWS\<close>; a subnegotiation of an option other than \<open>NAWS\<close>, whose
  payload has every byte 255 doubled; a command of two bytes, \<open>IAC c\<close>, that takes no
  option.
\<close>

datatype skipped = Reply byte byte | Unrelated byte "byte list" | Command byte

fun skipped_wire :: "skipped \<Rightarrow> byte list" where
  "skipped_wire (Reply v opt) = [IAC, v, opt]"
| "skipped_wire (Unrelated opt q) = [IAC, SB, opt] @ escaped q @ [IAC, SE]"
| "skipped_wire (Command c) = [IAC, c]"

fun skippable :: "skipped \<Rightarrow> bool" where
  "skippable (Reply v opt) = (v = WILL \<or> (v = WONT \<and> opt \<noteq> NAWS))"
| "skippable (Unrelated opt q) = (opt \<noteq> NAWS)"
| "skippable (Command c) =
     (c \<noteq> WILL \<and> c \<noteq> WONT \<and> c \<noteq> DO \<and> c \<noteq> DONT \<and> c \<noteq> SB \<and> c \<noteq> IAC)"

definition skipped_bytes :: "skipped list \<Rightarrow> byte list" where
  "skipped_bytes xs = concat (map skipped_wire xs)"

definition passed_over :: "skipped list \<Rightarrow> bool" where
  "passed_over xs = list_all skippable xs"

lemma wait_skipped:
  assumes "clean (reader s)" and "wire (reader s) = skipped_wire x @ ws" and "skippable x"
  shows "\<exists>b'. RequestWindowSize_loop (Suc timer) s =
             RequestWindowSize_loop timer (s\<lparr>reader := b'\<rparr>) \<and>
           clean b' \<and> wire b' = ws"
proof (cases x)
  case (Reply v opt)
  then show ?thesis
    using wait_reply [OF assms(1), of v opt ws timer] assms(2,3) by simp
next
  case (Unrelated opt q)
  then show ?thesis
    using wait_unrelated [OF assms(1), of opt q ws timer] assms(2,3) by simp
next
  case (Command c)
  then show ?thesis
    using wait_command [OF assms(1), of c ws timer] assms(2,3) by simp
qed

lemma wait_all_skipped:
  "clean (reader s) \<Longrightarrow> wire (reader s) = skipped_bytes xs @ ws \<Longrightarrow> passed_over xs \<Longrightarrow>
   \<exists>b'. RequestWindowSize_loop (length xs + timer) s =
          RequestWindowSize_loop timer (s\<lparr>reader := b'\<rparr>) \<and>
        clean b' \<and> wire b' = ws"
proof (induction xs arbitrary: s)
  case Nil
  have "RequestWindowSize_loop (length ([] :: skipped list) + timer) s =
      RequestWindowSize_loop timer (s\<lparr>reader := reader s\<rparr>)" by simp
  moreover have "wire (reader s) = ws" using Nil(2) by (simp add: skipped_bytes_def)
  ultimately show ?case using Nil(1) by blast
next
  case (Cons x xs)
  have w: "wire (reader s) = skipped_wire x @ (skipped_bytes xs @ ws)"
    using Cons.prems(2) by (simp add: skipped_bytes_def)
  have ok: "skippable x" and oks: "passed_over xs"
    using Cons.prems(3) by (simp_all add: passed_over_def)
  from wait_skipped [OF Cons.prems(1) w ok, of "length xs + timer"]
  obtain b1 where b1: "RequestWindowSize_loop (Suc (length xs + timer)) s =
      RequestWindowSize_loop (length xs + timer) (s\<lparr>reader := b1\<rparr>)" "clean b1"
    "wire b1 = skipped_bytes xs @ ws" by blast
  from Cons.IH [of "s\<lparr>reader := b1\<rparr>"] b1(2,3) oks
  obtain b' where b': "RequestWindowSize_loop (length xs + timer) (s\<lparr>reader := b1\<rparr>) =
      RequestWindowSize_loop timer (s\<lparr>reader := b1, reader := b'\<rparr>)" "clean b'"
    "wire b' = ws" by auto
  have "RequestWindowSize_loop (length (x # xs) + timer) s =
      RequestWindowSize_loop timer (s\<lparr>reader := b'\<rparr>)"
    using b1(1) b'(1) by simp
  then show ?case using b' by blast
qed

lemma skipped_bytes_append: "skipped_bytes (xs @ ys) = skipped_bytes xs @ skipped_bytes ys"
  by (simp add: skipped_bytes_def)

section \<open>Properties of the window-size negotiation\<close>

text \<open>
  C7, as found in the code: a byte of plain data between \<open>IAC WILL NAWS\<close> and the
  subnegotiation ends the wait. The wire holds \<open>IAC WILL NAWS\<close>, the byte 65, then
  \<open>IAC SB NAWS 0 80 0 24 IAC SE\<close>; \<open>RequestWindowSize\<close> returns \<open>nil\<close>, the window size
  is still (0, 0), and the byte 65 and the subnegotiation are left on the wire.
\<close>

definition data_between_session :: "(byte list \<times> byte list) Session" where
  "data_between_session = \<lparr>isPTY = False,
     reader = newReader [([255, 251, 31, 65, 255, 250, 31, 0, 80, 0, 24, 255, 240], None)],
     writer = ([], []), termCols = 0, termRows = 0\<rparr>"

theorem RequestWindowSize_data_between:
  "map_option (\<lambda>(e, s). (e, GetWindowSize s, wire (reader s)))
     (RequestWindowSize (recording buffer_Write) 5 data_between_session) =
   Some (None, (0, 0), [65, 255, 250, 31, 0, 80, 0, 24, 255, 240])"
  by code_simp

text \<open>
  C7, amended. The command \<open>DO NAWS\<close> has been sent through a reliable writer. The
  peer's bytes, delivered by a healthy transport in blocks of any sizes, are
  \<open>IAC WILL NAWS\<close> and then \<open>IAC SB NAWS wh wl hh hl IAC SE\<close>, with nothing before
  \<open>IAC WILL NAWS\<close> and nothing between the two but items that the wait passes over; the
  timer does not run out before the rounds that read them, one round for each item. Then
  \<open>RequestWindowSize\<close> returns \<open>nil\<close>, the session holds the width \<open>256 * wh + wl\<close> and
  the height \<open>256 * hh + hl\<close>, and the bytes that follow the subnegotiation are still on
  the wire.
\<close>

theorem RequestWindowSize_NAWS_reply:
  assumes "reliable wr" and "writer s = (w, log)" and "clean (reader s)"
    and "wire (reader s) =
           skipped_bytes before @ [IAC, WILL, NAWS] @ skipped_bytes between @
           [IAC, SB, NAWS, wh, wl, hh, hl, IAC, SE] @ ws"
    and "passed_over before" and "passed_over between"
    and "length before + length between + 2 \<le> timer"
  shows "\<exists>w' b'. RequestWindowSize (recording wr) timer s =
             Some (None, s\<lparr>writer := (w', log @ [IAC, DO, NAWS]), reader := b',
                            termCols := 256 * uint wh + uint wl,
                            termRows := 256 * uint hh + uint hl\<rparr>) \<and>
           wire b' = ws"
proof -
  from send_DO_NAWS [OF assms(1,2)]
  obtain w' where sent: "Session_WriteCommand (recording wr) IAC DO NAWS s =
      Some ((3, None), s\<lparr>writer := (w', log @ [IAC, DO, NAWS])\<rparr>)" by blast
  let ?s1 = "s\<lparr>writer := (w', log @ [IAC, DO, NAWS])\<rparr>"
  let ?xs = "before @ [Reply WILL NAWS] @ between"
  define t where "t = timer - (length before + length between + 2)"
  have t: "timer = length ?xs + Suc t"
    using assms(7) by (simp add: t_def)
  have c1: "clean (reader ?s1)" using assms(3) by simp
  have ok: "passed_over ?xs"
    using assms(5,6) by (simp add: passed_over_def)
  have "skipped_bytes ?xs = skipped_bytes before @ [IAC, WILL, NAWS] @ skipped_bytes between"
    by (simp add: skipped_bytes_def)
  then have w1: "wire (reader ?s1) =
      skipped_bytes ?xs @ ([IAC, SB, NAWS, wh, wl, hh, hl, IAC, SE] @ ws)"
    using assms(4) by simp
  from wait_all_skipped [OF c1 w1 ok, of "Suc t"]
  obtain b3 where b3: "RequestWindowSize_loop timer ?s1 =
      RequestWindowSize_loop (Suc t) (?s1\<lparr>reader := b3\<rparr>)" "clean b3"
    "wire b3 = [IAC, SB, NAWS, wh, wl, hh, hl, IAC, SE] @ ws"
    unfolding t by auto
  from wait_SB_NAWS [of "?s1\<lparr>reader := b3\<rparr>" wh wl hh hl ws t] b3(2,3)
  obtain b4 where b4: "RequestWindowSize_loop (Suc t) (?s1\<lparr>reader := b3\<rparr>) =
      (None, ?s1\<lparr>reader := b4, termCols := 256 * uint wh + uint wl,
                 termRows := 256 * uint hh + uint hl\<rparr>)" "wire b4 = ws"
    by auto
  have "RequestWindowSize (recording wr) timer s =
      Some (RequestWindowSize_loop timer ?s1)"
    using sent by (simp add: RequestWindowSize_def)
  then show ?thesis using b3(1) b4 by auto
qed

definition naws_session :: "(byte list \<times> byte list) Session" where
  "naws_session = \<lparr>isPTY = True,
     reader = newReader
       [([255, 241, 255, 251, 31, 255], None),
        ([251, 24, 255, 250, 24, 0, 255, 255, 255, 240, 255], None),
        ([250, 31, 0, 80, 0, 24, 255, 240, 65], None)],
     writer = ([], []), termCols = 0, termRows = 0\<rparr>"

theorem RequestWindowSize_NAWS_reply_witness:
  "\<exists>w' b'. RequestWindowSize (recording buffer_Write) 5 naws_session =
      Some (None, naws_session\<lparr>writer := (w', [] @ [IAC, DO, NAWS]), reader := b',
                                termCols := 256 * uint (0 :: byte) + uint (80 :: byte),
                                termRows := 256 * uint (0 :: byte) + uint (24 :: byte)\<rparr>) \<and>
      wire b' = [65]"
proof -
  have wr: "writer naws_session = ([], [])" by (simp add: naws_session_def)
  have c: "clean (reader naws_session)" by code_simp
  have w: "wire (reader naws_session) =
      skipped_bytes [Command 241] @ [IAC, WILL, NAWS] @
      skipped_bytes [Reply WILL 24, Unrelated 24 [0, 255]] @
      [IAC, SB, NAWS, 0, 80, 0, 24, IAC, SE] @ [65]"
    by code_simp
  have p1: "passed_over [Command 241]" by (simp add: passed_over_def wire_defs)
  have p2: "passed_over [Reply WILL 24, Unrelated 24 [0, 255]]"
    by (simp add: passed_over_def wire_defs)
  have t: "length [Command 241] + length [Reply WILL 24, Unrelated 24 [0, 255]] + 2 \<le> (5 :: nat)"
    by simp
  show ?thesis
    by (rule RequestWindowSize_NAWS_reply [OF reliable_buffer_Write wr c w p1 p2 t])
qed

lemma RequestWindowSize_example:
  "map_option (GetWindowSize \<circ> snd) (RequestWindowSize (recording buffer_Write) 5 naws_session) =
     Some (80, 24)"
  by code_simp

lemma RequestWindowSize_timeout_example:
  "map_option (GetWindowSize \<circ> snd) (RequestWindowSize (recording buffer_Write) 4 naws_session) =
     Some (0, 0)"
  by code_simp

text \<open>
  C10. The command \<open>DO NAWS\<close> has been sent through a reliable writer and the next byte
  on the wire is not 255. Then \<open>RequestWindowSize\<close> returns \<open>nil\<close>, whatever the timer;
  the window size of the session is what it was; the byte is still the first on the wire,
  and the next call of \<open>Read\<close> delivers it.
\<close>

theorem RequestWindowSize_plain_byte:
  assumes "reliable wr" and "writer s = (w, log)" and "clean (reader s)"
    and "wire (reader s) = x # ws" and "x \<noteq> IAC"
  shows "\<exists>s'. RequestWindowSize (recording wr) timer s = Some (None, s') \<and>
           termCols s' = termCols s \<and> termRows s' = termRows s \<and>
           wire (reader s') = x # ws \<and>
           (\<exists>b'. reader_Read 1 (reader s') = (([x], None), b'))"
proof -
  from send_DO_NAWS [OF assms(1,2)]
  obtain w' where sent: "Session_WriteCommand (recording wr) IAC DO NAWS s =
      Some ((3, None), s\<lparr>writer := (w', log @ [IAC, DO, NAWS])\<rparr>)" by blast
  let ?s1 = "s\<lparr>writer := (w', log @ [IAC, DO, NAWS])\<rparr>"
  have run: "RequestWindowSize (recording wr) timer s =
      Some (RequestWindowSize_loop timer ?s1)"
    using sent by (simp add: RequestWindowSize_def)
  have c1: "clean (reader ?s1)" and w1: "wire (reader ?s1) = x # ws"
    using assms(3,4) by simp_all
  have "\<exists>b'. RequestWindowSize_loop timer ?s1 = (None, ?s1\<lparr>reader := b'\<rparr>) \<and>
      clean b' \<and> wire b' = x # ws"
  proof (cases timer)
    case 0
    have "RequestWindowSize_loop timer ?s1 = (None, ?s1\<lparr>reader := reader s\<rparr>)"
      using 0 by simp
    then show ?thesis using assms(3,4) by blast
  next
    case (Suc t)
    then show ?thesis using wait_plain_byte [OF c1 w1 assms(5), of t] by simp
  qed
  then obtain b' where b': "RequestWindowSize_loop timer ?s1 = (None, ?s1\<lparr>reader := b'\<rparr>)"
    "clean b'" "wire b' = x # ws" by blast
  from ReadByte_clean [OF b'(2,3)]
  obtain b2 where b2: "ReadByte b' = (Inr x, b2)" by blast
  have "Read_loop 1 [] b' = Read_loop (1 - 1) ([] @ [x]) b2"
    by (rule Read_loop_data [OF _ _ b2 assms(5)]) simp_all
  also have "\<dots> = (([x], None), b2)"
    using Read_loop_exit [of 0 "[x]" b2] by simp
  finally have "reader_Read 1 b' = (([x], None), b2)" by (simp add: reader_Read_def)
  then show ?thesis using run b' by auto
qed

definition plain_session :: "(byte list \<times> byte list) Session" where
  "plain_session = \<lparr>isPTY = False, reader = newReader [([104, 105], None)],
     writer = ([], []), termCols = 0, termRows = 0\<rparr>"

theorem RequestWindowSize_plain_byte_witness:
  "\<exists>s'. RequestWindowSize (recording buffer_Write) 5 plain_session = Some (None, s') \<and>
      termCols s' = termCols plain_session \<and> termRows s' = termRows plain_session \<and>
      wire (reader s') = 104 # [105] \<and>
      (\<exists>b'. reader_Read 1 (reader s') = (([104], None), b'))"
proof -
  have wr: "writer plain_session = ([], [])" by (simp add: plain_session_def)
  have c: "clean (reader plain_session)" by code_simp
  have w: "wire (reader plain_session) = 104 # [105]" by code_simp
  have x: "(104 :: byte) \<noteq> IAC" by (simp add: IAC_def)
  show ?thesis
    by (rule RequestWindowSize_plain_byte [OF reliable_buffer_Write wr c w x])
qed

end
